theory Spec2Isabelle
  imports Complex_Main "HOL-Library.AList" "HOL-Library.Product_Lexorder"
begin

section \<open>Game state contract (Homework4/solutions/game.py)\<close>

text \<open>
  Cells, players and outcomes are Python strings; the module's constants are kept as
  strings, so a board may hold any string and an outcome may be any string
  (\<open>winner\<close> returns the mark it finds).
\<close>

definition PLAYER_X :: string where "PLAYER_X = ''X''"
definition PLAYER_O :: string where "PLAYER_O = ''O''"
definition EMPTY :: string where "EMPTY = ''.''"
definition DRAW :: string where "DRAW = ''DRAW''"

definition WIN_LINES :: "(nat \<times> nat \<times> nat) list" where
  "WIN_LINES =
     [(0, 1, 2), (3, 4, 5), (6, 7, 8), (0, 3, 6), (1, 4, 7), (2, 5, 8), (0, 4, 8), (2, 4, 6)]"

datatype error = ValueError string | IndexError string | RuntimeError string | AssertionError string

record GameState =
  board :: "string list"
  player :: string

text \<open>
  The dataclass is frozen and its \<open>__post_init__\<close> rejects every board that has not
  9 cells and every player other than X and O: \<open>GameState_init\<close> is the constructor,
  \<open>valid_state\<close> says that a record is one the constructor returns.
\<close>

definition GameState_init :: "string list \<Rightarrow> string \<Rightarrow> error + GameState" where
  "GameState_init b p =
     (if length b \<noteq> 9 then Inl (ValueError ''Board must have exactly 9 cells'')
      else if p \<notin> set [PLAYER_X, PLAYER_O] then Inl (ValueError ''Player must be X or O'')
      else Inr \<lparr>board = b, player = p\<rparr>)"

definition valid_state :: "GameState \<Rightarrow> bool" where
  "valid_state s = (length (board s) = 9 \<and> (player s = PLAYER_X \<or> player s = PLAYER_O))"

definition initial_state :: GameState where
  "initial_state = \<lparr>board = replicate 9 EMPTY, player = PLAYER_X\<rparr>"

definition other_player :: "string \<Rightarrow> string" where
  "other_player p = (if p = PLAYER_X then PLAYER_O else PLAYER_X)"

definition legal_moves :: "GameState \<Rightarrow> int list" where
  "legal_moves state =
     map (\<lambda>(idx, cell). int idx) (filter (\<lambda>(idx, cell). cell = EMPTY) (enumerate 0 (board state)))"

text \<open>
  \<open>apply_move\<close>: the two checks of the source in their order, the read of
  \<open>state.board[move]\<close> (an IndexError on a board that is too short), and the
  constructor's own checks on the new state.
\<close>

definition apply_move :: "GameState \<Rightarrow> int \<Rightarrow> error + GameState" where
  "apply_move state move =
     (if move < 0 \<or> move > 8 then Inl (ValueError ''Invalid move index'')
      else if \<not> nat move < length (board state) then Inl (IndexError ''tuple index out of range'')
      else if board state ! nat move \<noteq> EMPTY then Inl (ValueError ''Cell is not empty'')
      else GameState_init ((board state)[nat move := player state]) (other_player (player state)))"

text \<open>
  \<open>winner\<close> returns the mark of the first winning line, in the order of
  \<open>WIN_LINES\<close>. It reads cells 0 to 8: the boards of a \<open>GameState\<close> have 9 cells.
\<close>

fun winner_lines :: "string list \<Rightarrow> (nat \<times> nat \<times> nat) list \<Rightarrow> string option" where
  "winner_lines cells [] = None"
| "winner_lines cells ((a, b, c) # rest) =
     (if cells ! a \<noteq> EMPTY \<and> cells ! a = cells ! b \<and> cells ! b = cells ! c
      then Some (cells ! a) else winner_lines cells rest)"

definition winner :: "string list \<Rightarrow> string option" where
  "winner cells = winner_lines cells WIN_LINES"

definition terminal_outcome :: "GameState \<Rightarrow> string option" where
  "terminal_outcome state =
     (case winner (board state) of
        Some who \<Rightarrow> Some who
      | None \<Rightarrow> if EMPTY \<notin> set (board state) then Some DRAW else None)"

definition terminal_value :: "GameState \<Rightarrow> string \<Rightarrow> real option" where
  "terminal_value state perspective =
     (case terminal_outcome state of
        None \<Rightarrow> None
      | Some outcome \<Rightarrow>
          if outcome = DRAW then Some (1 / 2)
          else Some (if outcome = perspective then 1 else 0))"

definition state_key :: "GameState \<Rightarrow> string" where
  "state_key state = concat (board state) @ '':'' @ player state"


subsection \<open>Facts about the game state contract\<close>

definition won_state :: GameState where
  "won_state =
     \<lparr>board = [''X'', ''X'', ''X'', ''O'', ''O'', ''.'', ''.'', ''.'', ''.''], player = ''O''\<rparr>"

definition drawn_state :: GameState where
  "drawn_state =
     \<lparr>board = [''X'', ''O'', ''X'', ''X'', ''O'', ''O'', ''O'', ''X'', ''X''], player = ''X''\<rparr>"

lemma filter_enumerate:
  "map fst (filter (\<lambda>(idx, cell). P cell) (enumerate 0 xs)) =
   filter (\<lambda>i. P (xs ! i)) [0..<length xs]"
proof (induction xs rule: rev_induct)
  case Nil
  then show ?case by simp
next
  case (snoc x xs)
  have "filter (\<lambda>i. P ((xs @ [x]) ! i)) [0..<length xs] = filter (\<lambda>i. P (xs ! i)) [0..<length xs]"
    by (rule filter_cong) (auto simp: nth_append)
  with snoc show ?case
    by (simp add: enumerate_eq_zip zip_append1 take_Suc_conv_app_nth)
qed

lemma legal_moves_filter:
  "legal_moves s = map int (filter (\<lambda>i. board s ! i = EMPTY) [0..<length (board s)])"
proof -
  have "(\<lambda>(idx, cell). int idx) = int \<circ> fst" by auto
  then have "legal_moves s =
      map int (map fst (filter (\<lambda>(idx, cell). cell = EMPTY) (enumerate 0 (board s))))"
    by (simp add: legal_moves_def)
  then show ?thesis
    by (simp only: filter_enumerate[of "\<lambda>c. c = EMPTY" "board s"])
qed

lemma legal_moves_set:
  "set (legal_moves s) = {int i |i. i < length (board s) \<and> board s ! i = EMPTY}"
  by (auto simp: legal_moves_filter)

lemma legal_moves_strict: "sorted_wrt (<) (legal_moves s)"
  unfolding legal_moves_filter
  by (simp add: sorted_wrt_map sorted_wrt_filter)

lemma legal_moves_Nil: "legal_moves s = [] \<longleftrightarrow> EMPTY \<notin> set (board s)"
  by (auto simp: legal_moves_filter filter_empty_conv in_set_conv_nth)


text \<open>
  Claim C3, as amended. \<open>legal_moves\<close> lists the index of every empty cell, each once
  and in ascending order (the list is strictly increasing), whether or not the state is
  terminal: the function never looks at the outcome. It is empty exactly when the board
  has no empty cell, so it is empty on every state that is terminal without a winner (a
  draw); on a won state with empty cells left it still returns those cells.
\<close>

theorem legal_moves_spec:
  "sorted_wrt (<) (legal_moves s) \<and>
   set (legal_moves s) = {int i |i. i < length (board s) \<and> board s ! i = EMPTY} \<and>
   (legal_moves s = [] \<longleftrightarrow> EMPTY \<notin> set (board s)) \<and>
   (winner (board s) = None \<longrightarrow> terminal_outcome s \<noteq> None \<longrightarrow> legal_moves s = [])"
  using legal_moves_strict legal_moves_set legal_moves_Nil
  by (auto simp: terminal_outcome_def split: if_splits)

theorem legal_moves_spec_witness:
  "winner (board drawn_state) = None \<and> terminal_outcome drawn_state \<noteq> None \<and>
   legal_moves drawn_state = []"
  using legal_moves_spec[of drawn_state]
  by (simp add: drawn_state_def terminal_outcome_def winner_def WIN_LINES_def EMPTY_def)

text \<open>
  Claim C3 as stated fails: after X, O, X, O, X on cells 0, 3, 1, 4, 2 the state is
  terminal (X has the top row) and \<open>legal_moves\<close> returns the four empty cells.
\<close>

theorem legal_moves_terminal_counterexample:
  "terminal_outcome won_state = Some PLAYER_X \<and> legal_moves won_state = [5, 6, 7, 8]"
  by (simp add: won_state_def terminal_outcome_def winner_def WIN_LINES_def EMPTY_def
        PLAYER_X_def legal_moves_def enumerate_eq_zip upt_rec)

text \<open>
  Claim C7. On a state the constructor accepts, \<open>apply_move\<close> raises exactly when
  the move is below 0, above 8 or targets a cell that is not empty. Otherwise it returns
  a state the constructor accepts, whose board is the old one with the targeted cell set
  to the mover and every other cell as before, and whose mover is the other player. The
  function builds the new board from a copy, and the model returns a new record: the
  input state is the same value after the call.
\<close>

theorem apply_move_spec:
  assumes "valid_state s"
  shows "((\<exists>e. apply_move s m = Inl e) \<longleftrightarrow> (m < 0 \<or> m > 8 \<or> board s ! nat m \<noteq> EMPTY)) \<and>
         (\<forall>s'. apply_move s m = Inr s' \<longrightarrow>
            valid_state s' \<and>
            board s' ! nat m = player s \<and>
            (\<forall>i < 9. i \<noteq> nat m \<longrightarrow> board s' ! i = board s ! i) \<and>
            player s' = other_player (player s) \<and> player s' \<noteq> player s \<and>
            s' = \<lparr>board = (board s)[nat m := player s], player = other_player (player s)\<rparr>)"
  using assms
  by (auto simp: apply_move_def GameState_init_def valid_state_def other_player_def
        PLAYER_X_def PLAYER_O_def split: if_splits)

theorem apply_move_spec_witness:
  "valid_state initial_state \<and>
   apply_move initial_state 4 =
     Inr \<lparr>board = [''.'', ''.'', ''.'', ''.'', ''X'', ''.'', ''.'', ''.'', ''.''], player = ''O''\<rparr> \<and>
   (\<exists>e. apply_move initial_state 9 = Inl e) \<and>
   (\<exists>e. apply_move won_state 0 = Inl e)"
proof -
  have v: "valid_state initial_state"
    by (simp add: valid_state_def initial_state_def PLAYER_X_def)
  have w: "valid_state won_state"
    by (simp add: valid_state_def won_state_def PLAYER_O_def)
  have a: "apply_move initial_state 4 =
     Inr \<lparr>board = [''.'', ''.'', ''.'', ''.'', ''X'', ''.'', ''.'', ''.'', ''.''], player = ''O''\<rparr>"
    by (simp add: apply_move_def initial_state_def GameState_init_def EMPTY_def PLAYER_X_def
          PLAYER_O_def other_player_def numeral_eq_Suc)
  from apply_move_spec[OF v, of 9] have b: "\<exists>e. apply_move initial_state 9 = Inl e"
    by simp
  from apply_move_spec[OF w, of 0] have c: "\<exists>e. apply_move won_state 0 = Inl e"
    by (simp add: won_state_def EMPTY_def)
  from v a b c show ?thesis by simp
qed

section \<open>Exact minimax solver (Homework4/solutions/minimax.py)\<close>

text \<open>
  A list comprehension evaluates its elements from left to right and the first exception
  leaves it: \<open>map_result\<close>. \<open>max\<close> and \<open>min\<close> of an empty list raise ValueError.
  Floats are modelled as reals; the values of the game are 0, 1/2 and 1.
\<close>

fun map_result :: "('a \<Rightarrow> error + 'b) \<Rightarrow> 'a list \<Rightarrow> error + 'b list" where
  "map_result f [] = Inr []"
| "map_result f (x # xs) =
     (case f x of
        Inl e \<Rightarrow> Inl e
      | Inr y \<Rightarrow> (case map_result f xs of Inl e \<Rightarrow> Inl e | Inr ys \<Rightarrow> Inr (y # ys)))"

lemma map_result_cong [fundef_cong]:
  "xs = ys \<Longrightarrow> (\<And>x. x \<in> set ys \<Longrightarrow> f x = g x) \<Longrightarrow> map_result f xs = map_result g ys"
  by (induction ys arbitrary: xs) (auto split: sum.splits)

definition py_max :: "real list \<Rightarrow> error + real" where
  "py_max xs =
     (case xs of
        [] \<Rightarrow> Inl (ValueError ''max() arg is an empty sequence'')
      | x # rest \<Rightarrow> Inr (fold max rest x))"

definition py_min :: "real list \<Rightarrow> error + real" where
  "py_min xs =
     (case xs of
        [] \<Rightarrow> Inl (ValueError ''min() arg is an empty sequence'')
      | x # rest \<Rightarrow> Inr (fold min rest x))"

text \<open>
  The measure of the recursion: every move fills an empty cell. A record whose mover is
  the empty mark (the constructor never returns one) keeps its count for one move, hence
  the second summand.
\<close>

definition empties :: "GameState \<Rightarrow> nat" where
  "empties s = 2 * length (filter (\<lambda>c. c = EMPTY) (board s)) + (if player s = EMPTY then 1 else 0)"

lemma filter_update_less:
  "i < length xs \<Longrightarrow> P (xs ! i) \<Longrightarrow> \<not> P v \<Longrightarrow>
     length (filter P (xs[i := v])) < length (filter P xs)"
proof (induction xs arbitrary: i)
  case Nil then show ?case by simp
next
  case (Cons x xs)
  show ?case
  proof (cases i)
    case 0
    with Cons.prems show ?thesis by simp
  next
    case (Suc j)
    with Cons.prems Cons.IH[of j] show ?thesis by auto
  qed
qed

lemma filter_update_same:
  "i < length xs \<Longrightarrow> P (xs ! i) \<Longrightarrow> P v \<Longrightarrow>
     length (filter P (xs[i := v])) = length (filter P xs)"
proof (induction xs arbitrary: i)
  case Nil then show ?case by simp
next
  case (Cons x xs)
  show ?case
  proof (cases i)
    case 0
    with Cons.prems show ?thesis by simp
  next
    case (Suc j)
    with Cons.prems Cons.IH[of j] show ?thesis by auto
  qed
qed

lemma apply_move_Inr:
  "apply_move s m = Inr c \<Longrightarrow>
     0 \<le> m \<and> m \<le> 8 \<and> nat m < length (board s) \<and> board s ! nat m = EMPTY \<and>
     c = \<lparr>board = (board s)[nat m := player s], player = other_player (player s)\<rparr>"
  by (auto simp: apply_move_def GameState_init_def split: if_splits)

lemma other_player_not_EMPTY: "other_player p \<noteq> EMPTY"
  by (simp add: other_player_def PLAYER_X_def PLAYER_O_def EMPTY_def)

lemma apply_move_empties: "apply_move s m = Inr c \<Longrightarrow> empties c < empties s"
proof -
  assume a: "apply_move s m = Inr c"
  note f = apply_move_Inr[OF a]
  show ?thesis
  proof (cases "player s = EMPTY")
    case True
    with f filter_update_same[of "nat m" "board s" "\<lambda>c. c = EMPTY" "player s"]
    show ?thesis by (simp add: empties_def other_player_not_EMPTY)
  next
    case False
    with f filter_update_less[of "nat m" "board s" "\<lambda>c. c = EMPTY" "player s"]
    show ?thesis by (simp add: empties_def other_player_not_EMPTY)
  qed
qed

text \<open>
  \<open>minimax_value\<close> is memoised with \<open>lru_cache\<close>; states are immutable and the
  recursion is pure, so the cache changes no result and is not modelled.
\<close>

function minimax_value :: "GameState \<Rightarrow> string \<Rightarrow> error + real" where
  "minimax_value state perspective =
     (case terminal_value state perspective of
        Some terminal \<Rightarrow> Inr terminal
      | None \<Rightarrow>
          (case map_result
                  (\<lambda>move. case apply_move state move of
                             Inl e \<Rightarrow> Inl e
                           | Inr child \<Rightarrow> minimax_value child perspective)
                  (legal_moves state) of
             Inl e \<Rightarrow> Inl e
           | Inr child_values \<Rightarrow>
               if player state = perspective then py_max child_values else py_min child_values))"
  by pat_completeness auto
termination
  by (relation "measure (\<lambda>(s, p). empties s)") (auto dest: apply_move_empties)

definition best_moves :: "GameState \<Rightarrow> error + (int \<times> real) list" where
  "best_moves state =
     (let perspective = player state in
      case map_result
             (\<lambda>move. case apply_move state move of
                        Inl e \<Rightarrow> Inl e
                      | Inr child \<Rightarrow>
                          (case minimax_value child perspective of
                             Inl e \<Rightarrow> Inl e
                           | Inr value \<Rightarrow> Inr (move, value)))
             (legal_moves state) of
        Inl e \<Rightarrow> Inl e
      | Inr scored \<Rightarrow>
          if scored = [] then Inr []
          else (case py_max (map snd scored) of
                  Inl e \<Rightarrow> Inl e
                | Inr best_value \<Rightarrow> Inr (filter (\<lambda>(move, value). value = best_value) scored)))"


subsection \<open>Facts about minimax\<close>

declare minimax_value.simps [simp del]

lemma py_max_Max: "xs \<noteq> [] \<Longrightarrow> py_max xs = Inr (Max (set xs))"
  using Max.set_eq_fold[of "hd xs" "tl xs"] by (cases xs) (simp_all add: py_max_def)

lemma py_min_Min: "xs \<noteq> [] \<Longrightarrow> py_min xs = Inr (Min (set xs))"
  using Min.set_eq_fold[of "hd xs" "tl xs"] by (cases xs) (simp_all add: py_min_def)

lemma map_result_total:
  "(\<And>x. x \<in> set xs \<Longrightarrow> \<exists>y. f x = Inr y \<and> Q y) \<Longrightarrow>
     \<exists>ys. map_result f xs = Inr ys \<and> list_all2 (\<lambda>x y. f x = Inr y) xs ys \<and> (\<forall>y \<in> set ys. Q y)"
proof (induction xs)
  case Nil
  then show ?case by simp
next
  case (Cons x xs)
  from Cons.prems[of x] obtain y where y: "f x = Inr y" "Q y" by auto
  from Cons.IH Cons.prems obtain ys where
    ys: "map_result f xs = Inr ys" "list_all2 (\<lambda>x y. f x = Inr y) xs ys" "\<forall>y \<in> set ys. Q y"
    by auto
  from y ys show ?case by simp
qed

lemma map_result_Inr:
  "map_result f xs = Inr ys \<Longrightarrow> list_all2 (\<lambda>x y. f x = Inr y) xs ys"
  by (induction xs arbitrary: ys) (auto split: sum.splits)

lemma apply_move_valid:
  "valid_state s \<Longrightarrow> apply_move s m = Inr c \<Longrightarrow> valid_state c"
  by (auto simp: apply_move_def GameState_init_def valid_state_def other_player_def
        split: if_splits)

lemma apply_move_legal:
  "valid_state s \<Longrightarrow> m \<in> set (legal_moves s) \<Longrightarrow>
     \<exists>c. apply_move s m = Inr c \<and> valid_state c"
  by (auto simp: legal_moves_set apply_move_def GameState_init_def valid_state_def
        other_player_def)

lemma apply_move_is_legal: "apply_move s m = Inr c \<Longrightarrow> m \<in> set (legal_moves s)"
proof -
  assume "apply_move s m = Inr c"
  from apply_move_Inr[OF this] have "nat m < length (board s)" "board s ! nat m = EMPTY" "0 \<le> m"
    by auto
  then have "int (nat m) \<in> set (legal_moves s)"
    unfolding legal_moves_set by blast
  with \<open>0 \<le> m\<close> show ?thesis by simp
qed

lemma nonterminal_has_moves: "terminal_outcome s = None \<Longrightarrow> legal_moves s \<noteq> []"
  by (auto simp: terminal_outcome_def legal_moves_Nil split: option.splits if_splits)

lemma terminal_value_None: "terminal_value s p = None \<longleftrightarrow> terminal_outcome s = None"
proof (cases "terminal_outcome s")
  case None
  then show ?thesis by (simp add: terminal_value_def)
next
  case (Some a)
  then have "terminal_value s p = Some (if a = DRAW then 1 / 2 else if a = p then 1 else 0)"
    by (simp add: terminal_value_def)
  with Some show ?thesis by simp
qed

lemma terminal_value_range: "terminal_value s p = Some t \<Longrightarrow> t \<in> {0, 1 / 2, 1}"
  by (auto simp: terminal_value_def split: option.splits if_splits)

lemma minimax_value_terminal:
  "terminal_value s p = Some t \<Longrightarrow> minimax_value s p = Inr t"
  by (subst minimax_value.simps) simp

definition child_value :: "GameState \<Rightarrow> string \<Rightarrow> int \<Rightarrow> error + real" where
  "child_value state perspective move =
     (case apply_move state move of
        Inl e \<Rightarrow> Inl e
      | Inr child \<Rightarrow> minimax_value child perspective)"

lemma minimax_value_step:
  "terminal_value s p = None \<Longrightarrow>
     minimax_value s p =
       (case map_result (child_value s p) (legal_moves s) of
          Inl e \<Rightarrow> Inl e
        | Inr vs \<Rightarrow> if player s = p then py_max vs else py_min vs)"
  unfolding child_value_def by (subst minimax_value.simps) simp

lemma minimax_value_total:
  "valid_state s \<Longrightarrow> \<exists>v. minimax_value s p = Inr v \<and> v \<in> {0, 1 / 2, 1}"
proof (induction s p rule: minimax_value.induct)
  case (1 state perspective)
  show ?case
  proof (cases "terminal_value state perspective")
    case (Some t)
    from terminal_value_range[OF Some] minimax_value_terminal[OF Some] show ?thesis by blast
  next
    case None
    have "\<exists>y. child_value state perspective m = Inr y \<and> y \<in> {0, 1 / 2, 1}"
      if "m \<in> set (legal_moves state)" for m
    proof -
      from apply_move_legal[OF "1.prems" that] obtain c where
        c: "apply_move state m = Inr c" "valid_state c" by auto
      from "1.IH"[OF None that c] c(1) show ?thesis by (simp add: child_value_def)
    qed
    from map_result_total[of "legal_moves state" "child_value state perspective"
        "\<lambda>y. y \<in> {0, 1 / 2, 1}", OF this]
    obtain vs where vs: "map_result (child_value state perspective) (legal_moves state) = Inr vs"
      "list_all2 (\<lambda>x y. child_value state perspective x = Inr y) (legal_moves state) vs"
      "\<forall>y \<in> set vs. y \<in> {0, 1 / 2, 1}" by blast
    from None have "legal_moves state \<noteq> []"
      by (simp add: terminal_value_None nonterminal_has_moves)
    with vs(2) have ne: "vs \<noteq> []" by auto
    then have "Max (set vs) \<in> set vs" "Min (set vs) \<in> set vs" by simp_all
    with vs(3) have "Max (set vs) \<in> {0, 1 / 2, 1}" "Min (set vs) \<in> {0, 1 / 2, 1}" by blast+
    with vs(1) ne show ?thesis
      by (simp add: minimax_value_step[OF None] py_max_Max py_min_Min)
  qed
qed

lemma minimax_value_children:
  assumes "valid_state s" "terminal_value s p = None"
  shows "\<exists>vs. vs \<noteq> [] \<and>
           list_all2 (\<lambda>move v. child_value s p move = Inr v) (legal_moves s) vs \<and>
           minimax_value s p = Inr (if player s = p then Max (set vs) else Min (set vs))"
proof -
  have "\<exists>y. child_value s p m = Inr y \<and> True" if "m \<in> set (legal_moves s)" for m
  proof -
    from apply_move_legal[OF assms(1) that] obtain c where
      c: "apply_move s m = Inr c" "valid_state c" by auto
    from minimax_value_total[OF c(2), of p] c(1) show ?thesis by (auto simp: child_value_def)
  qed
  from map_result_total[of "legal_moves s" "child_value s p" "\<lambda>y. True", OF this]
  obtain vs where vs: "map_result (child_value s p) (legal_moves s) = Inr vs"
    "list_all2 (\<lambda>x y. child_value s p x = Inr y) (legal_moves s) vs" by blast
  from assms(2) have "legal_moves s \<noteq> []"
    by (simp add: terminal_value_None nonterminal_has_moves)
  with vs(2) have ne: "vs \<noteq> []" by auto
  with vs show ?thesis
    by (auto simp: minimax_value_step[OF assms(2)] py_max_Max py_min_Min)
qed

text \<open>
  A \<open>random.Random\<close> object is a deterministic state machine: asked for a number
  below \<open>n\<close> it answers and moves to its next state. \<open>choice\<close> raises IndexError on
  an empty sequence and otherwise indexes it with \<open>_randbelow(len(seq))\<close>, which is
  below the length (the model reduces the machine's answer modulo the length).
  \<open>choose_perfect_move\<close> draws from its argument, or from the module-level generator
  when the argument is None.
\<close>

codatatype rng = Rng (randbelow_raw: "nat \<Rightarrow> nat \<times> rng")

definition choice :: "rng \<Rightarrow> 'a list \<Rightarrow> error + ('a \<times> rng)" where
  "choice r seq =
     (if seq = [] then Inl (IndexError ''Cannot choose from an empty sequence'')
      else (case randbelow_raw r (length seq) of
              (k, r') \<Rightarrow> Inr (seq ! (k mod length seq), r')))"

definition choose_perfect_move ::
  "GameState \<Rightarrow> rng option \<Rightarrow> rng \<Rightarrow> error + ((int \<times> real) \<times> rng option \<times> rng)" where
  "choose_perfect_move state rng module_random =
     (case best_moves state of
        Inl e \<Rightarrow> Inl e
      | Inr choices \<Rightarrow>
          if choices = [] then Inl (ValueError ''No legal moves available'')
          else (case rng of
                  Some picker \<Rightarrow>
                    (case choice picker choices of
                       Inl e \<Rightarrow> Inl e
                     | Inr (c, picker') \<Rightarrow> Inr (c, Some picker', module_random))
                | None \<Rightarrow>
                    (case choice module_random choices of
                       Inl e \<Rightarrow> Inl e
                     | Inr (c, picker') \<Rightarrow> Inr (c, None, picker'))))"

definition forced_win_state :: GameState where
  "forced_win_state =
     \<lparr>board = [''X'', ''X'', ''.'', ''O'', ''O'', ''.'', ''.'', ''.'', ''.''], player = ''X''\<rparr>"

primcorec zero_rng :: rng where
  "randbelow_raw zero_rng = (\<lambda>n. (0, zero_rng))"

lemma choice_nonempty:
  "seq \<noteq> [] \<Longrightarrow> \<exists>x r'. choice r seq = Inr (x, r') \<and> x \<in> set seq"
  by (cases "randbelow_raw r (length seq)") (simp add: choice_def)

lemma choice_Inr: "choice r seq = Inr (x, r') \<Longrightarrow> x \<in> set seq"
  by (cases "randbelow_raw r (length seq)") (auto simp: choice_def split: if_splits)

lemma child_value_Inr:
  "child_value s p m = Inr v \<longleftrightarrow>
     (\<exists>child. apply_move s m = Inr child \<and> minimax_value child p = Inr v)"
  by (cases "apply_move s m") (simp_all add: child_value_def)

lemma map_result_map:
  "(\<And>x. x \<in> set xs \<Longrightarrow> f x = Inr (g x)) \<Longrightarrow> map_result f xs = Inr (map g xs)"
  by (induction xs) simp_all

lemma child_value_total:
  assumes "valid_state s" "m \<in> set (legal_moves s)"
  shows "\<exists>v. child_value s p m = Inr v \<and> v \<in> {0, 1 / 2, 1}"
proof -
  from apply_move_legal[OF assms] obtain c where c: "apply_move s m = Inr c" "valid_state c"
    by auto
  from minimax_value_total[OF c(2), of p] c(1) show ?thesis by (auto simp: child_value_def)
qed

lemma best_moves_char:
  assumes "valid_state s" "legal_moves s \<noteq> []"
  shows "\<exists>value_of.
           (\<forall>m \<in> set (legal_moves s).
              child_value s (player s) m = Inr (value_of m) \<and> value_of m \<in> {0, 1 / 2, 1}) \<and>
           best_moves s =
             Inr (map (\<lambda>m. (m, value_of m))
                    (filter (\<lambda>m. value_of m = Max (value_of ` set (legal_moves s)))
                       (legal_moves s)))"
proof -
  define value_of where
    "value_of m = (case child_value s (player s) m of Inr v \<Rightarrow> v | Inl e \<Rightarrow> 0)" for m
  have cv: "child_value s (player s) m = Inr (value_of m) \<and> value_of m \<in> {0, 1 / 2, 1}"
    if "m \<in> set (legal_moves s)" for m
    using child_value_total[OF assms(1) that, of "player s"] by (auto simp: value_of_def)
  have "(case apply_move s m of
           Inl e \<Rightarrow> Inl e
         | Inr child \<Rightarrow>
             (case minimax_value child (player s) of
                Inl e \<Rightarrow> Inl e
              | Inr value \<Rightarrow> Inr (m, value))) = Inr (m, value_of m)"
    if "m \<in> set (legal_moves s)" for m
    using cv[OF that] by (auto simp: child_value_Inr)
  from map_result_map[of "legal_moves s" _ "\<lambda>m. (m, value_of m)", OF this]
  have scored: "map_result
       (\<lambda>move. case apply_move s move of
                  Inl e \<Rightarrow> Inl e
                | Inr child \<Rightarrow>
                    (case minimax_value child (player s) of
                       Inl e \<Rightarrow> Inl e
                     | Inr value \<Rightarrow> Inr (move, value)))
       (legal_moves s) = Inr (map (\<lambda>m. (m, value_of m)) (legal_moves s))"
    by simp
  have mx: "py_max (map snd (map (\<lambda>m. (m, value_of m)) (legal_moves s))) =
        Inr (Max (value_of ` set (legal_moves s)))"
    using assms(2) by (simp add: py_max_Max o_def)
  have "best_moves s =
      Inr (filter (\<lambda>(move, value). value = Max (value_of ` set (legal_moves s)))
             (map (\<lambda>m. (m, value_of m)) (legal_moves s)))"
    unfolding best_moves_def Let_def scored using assms(2) mx by simp
  then have "best_moves s =
      Inr (map (\<lambda>m. (m, value_of m))
             (filter (\<lambda>m. value_of m = Max (value_of ` set (legal_moves s))) (legal_moves s)))"
    by (simp add: filter_map o_def)
  with cv show ?thesis by blast
qed

subsection \<open>Certificates for the value of a position\<close>

text \<open>
  Two executable checks, used to compute bounds on \<open>minimax_value\<close> without walking
  the whole game tree: \<open>secures_draw n order p s\<close> searches a strategy of \<open>p\<close> that
  never loses from \<open>s\<close> (the moves of \<open>p\<close> are tried in the order \<open>order\<close>, every
  reply of the opponent is followed), \<open>held_to_draw\<close> searches a strategy of the
  opponent under which \<open>p\<close> never wins. They are sound for \<open>minimax_value\<close>.
\<close>

fun secures_draw :: "nat \<Rightarrow> int list \<Rightarrow> string \<Rightarrow> GameState \<Rightarrow> bool" where
  "secures_draw 0 order p s = False"
| "secures_draw (Suc n) order p s =
     (case terminal_outcome s of
        Some w \<Rightarrow> w = DRAW \<or> w = p
      | None \<Rightarrow>
          if player s = p
          then list_ex (\<lambda>m. case apply_move s m of
                              Inl e \<Rightarrow> False
                            | Inr c \<Rightarrow> secures_draw n order p c) order
          else list_all (\<lambda>m. case apply_move s m of
                               Inl e \<Rightarrow> False
                             | Inr c \<Rightarrow> secures_draw n order p c) (legal_moves s))"

fun held_to_draw :: "nat \<Rightarrow> int list \<Rightarrow> string \<Rightarrow> GameState \<Rightarrow> bool" where
  "held_to_draw 0 order p s = False"
| "held_to_draw (Suc n) order p s =
     (case terminal_outcome s of
        Some w \<Rightarrow> w = DRAW \<or> w \<noteq> p
      | None \<Rightarrow>
          if player s = p
          then list_all (\<lambda>m. case apply_move s m of
                               Inl e \<Rightarrow> False
                             | Inr c \<Rightarrow> held_to_draw n order p c) (legal_moves s)
          else list_ex (\<lambda>m. case apply_move s m of
                              Inl e \<Rightarrow> False
                            | Inr c \<Rightarrow> held_to_draw n order p c) order)"

lemma list_all2_witness:
  "list_all2 R xs ys \<Longrightarrow> x \<in> set xs \<Longrightarrow> \<exists>y \<in> set ys. R x y"
  by (induction rule: list_all2_induct) auto

lemma list_all2_witness':
  "list_all2 R xs ys \<Longrightarrow> y \<in> set ys \<Longrightarrow> \<exists>x \<in> set xs. R x y"
  by (induction rule: list_all2_induct) auto

lemma terminal_value_Some:
  "terminal_outcome s = Some w \<Longrightarrow>
     terminal_value s p = Some (if w = DRAW then 1 / 2 else if w = p then 1 else 0)"
  by (simp add: terminal_value_def)

lemma secures_draw_sound:
  "secures_draw n order p s \<Longrightarrow> valid_state s \<Longrightarrow>
     \<exists>v. minimax_value s p = Inr v \<and> 1 / 2 \<le> v"
proof (induction n arbitrary: s)
  case 0
  then show ?case by simp
next
  case (Suc n)
  show ?case
  proof (cases "terminal_outcome s")
    case (Some w)
    with Suc.prems(1) have w: "w = DRAW \<or> w = p" by simp
    define t :: real where "t = (if w = DRAW then 1 / 2 else if w = p then 1 else 0)"
    have "minimax_value s p = Inr t"
      unfolding t_def by (rule minimax_value_terminal[OF terminal_value_Some[OF Some]])
    moreover from w have "1 / 2 \<le> t" by (auto simp: t_def)
    ultimately show ?thesis by blast
  next
    case None
    then have tv: "terminal_value s p = None" by (simp add: terminal_value_None)
    from minimax_value_children[OF Suc.prems(2) tv] obtain vs where
      vs: "vs \<noteq> []" "list_all2 (\<lambda>move v. child_value s p move = Inr v) (legal_moves s) vs"
      "minimax_value s p = Inr (if player s = p then Max (set vs) else Min (set vs))" by blast
    show ?thesis
    proof (cases "player s = p")
      case True
      with Suc.prems(1) None obtain m where
        "case apply_move s m of Inl e \<Rightarrow> False | Inr c \<Rightarrow> secures_draw n order p c"
        by (auto simp: list_ex_iff)
      then obtain c where mc: "apply_move s m = Inr c" "secures_draw n order p c"
        by (cases "apply_move s m") auto
      from Suc.IH[OF mc(2) apply_move_valid[OF Suc.prems(2) mc(1)]] obtain v where
        v: "minimax_value c p = Inr v" "1 / 2 \<le> v" by blast
      from list_all2_witness[OF vs(2) apply_move_is_legal[OF mc(1)]] mc(1) v(1)
      have "v \<in> set vs" by (auto simp: child_value_def)
      then have "v \<le> Max (set vs)" by simp
      with v(2) vs(3) True show ?thesis by auto
    next
      case False
      have "1 / 2 \<le> v" if "v \<in> set vs" for v
      proof -
        from list_all2_witness'[OF vs(2) that] obtain m where
          m: "m \<in> set (legal_moves s)" "child_value s p m = Inr v" by blast
        from m(1) Suc.prems(1) None False
        have "case apply_move s m of Inl e \<Rightarrow> False | Inr c \<Rightarrow> secures_draw n order p c"
          by (auto simp: list_all_iff)
        then obtain c where c: "apply_move s m = Inr c" "secures_draw n order p c"
          by (cases "apply_move s m") auto
        from Suc.IH[OF c(2) apply_move_valid[OF Suc.prems(2) c(1)]] m(2) c(1)
        show ?thesis by (auto simp: child_value_def)
      qed
      with vs(1) have "1 / 2 \<le> Min (set vs)" by simp
      with vs(3) False show ?thesis by auto
    qed
  qed
qed

lemma held_to_draw_sound:
  "held_to_draw n order p s \<Longrightarrow> valid_state s \<Longrightarrow>
     \<exists>v. minimax_value s p = Inr v \<and> v \<le> 1 / 2"
proof (induction n arbitrary: s)
  case 0
  then show ?case by simp
next
  case (Suc n)
  show ?case
  proof (cases "terminal_outcome s")
    case (Some w)
    with Suc.prems(1) have w: "w = DRAW \<or> w \<noteq> p" by simp
    define t :: real where "t = (if w = DRAW then 1 / 2 else if w = p then 1 else 0)"
    have "minimax_value s p = Inr t"
      unfolding t_def by (rule minimax_value_terminal[OF terminal_value_Some[OF Some]])
    moreover from w have "t \<le> 1 / 2" by (auto simp: t_def)
    ultimately show ?thesis by blast
  next
    case None
    then have tv: "terminal_value s p = None" by (simp add: terminal_value_None)
    from minimax_value_children[OF Suc.prems(2) tv] obtain vs where
      vs: "vs \<noteq> []" "list_all2 (\<lambda>move v. child_value s p move = Inr v) (legal_moves s) vs"
      "minimax_value s p = Inr (if player s = p then Max (set vs) else Min (set vs))" by blast
    show ?thesis
    proof (cases "player s = p")
      case False
      with Suc.prems(1) None obtain m where
        "case apply_move s m of Inl e \<Rightarrow> False | Inr c \<Rightarrow> held_to_draw n order p c"
        by (auto simp: list_ex_iff)
      then obtain c where mc: "apply_move s m = Inr c" "held_to_draw n order p c"
        by (cases "apply_move s m") auto
      from Suc.IH[OF mc(2) apply_move_valid[OF Suc.prems(2) mc(1)]] obtain v where
        v: "minimax_value c p = Inr v" "v \<le> 1 / 2" by blast
      from list_all2_witness[OF vs(2) apply_move_is_legal[OF mc(1)]] mc(1) v(1)
      have "v \<in> set vs" by (auto simp: child_value_def)
      then have "Min (set vs) \<le> v" by simp
      with v(2) vs(3) False show ?thesis by auto
    next
      case True
      have "v \<le> 1 / 2" if "v \<in> set vs" for v
      proof -
        from list_all2_witness'[OF vs(2) that] obtain m where
          m: "m \<in> set (legal_moves s)" "child_value s p m = Inr v" by blast
        from m(1) Suc.prems(1) None True
        have "case apply_move s m of Inl e \<Rightarrow> False | Inr c \<Rightarrow> held_to_draw n order p c"
          by (auto simp: list_all_iff)
        then obtain c where c: "apply_move s m = Inr c" "held_to_draw n order p c"
          by (cases "apply_move s m") auto
        from Suc.IH[OF c(2) apply_move_valid[OF Suc.prems(2) c(1)]] m(2) c(1)
        show ?thesis by (auto simp: child_value_def)
      qed
      with vs(1) have "Max (set vs) \<le> 1 / 2" by simp
      with vs(3) True show ?thesis by auto
    qed
  qed
qed

lemma X_secures_draw: "secures_draw 10 [6, 0, 3, 4, 2, 5, 8, 1, 7] PLAYER_X initial_state"
  by code_simp


definition after_first :: "nat \<Rightarrow> GameState" where
  "after_first m = \<lparr>board = (replicate 9 EMPTY)[m := PLAYER_X], player = PLAYER_O\<rparr>"

lemma X_held_after_0: "held_to_draw 9 [0, 4, 3, 5, 2, 6, 7, 8, 1] PLAYER_X (after_first 0)"
  by code_simp

lemma X_held_after_1: "held_to_draw 9 [1, 4, 2, 6, 8, 7, 0, 3, 5] PLAYER_X (after_first 1)"
  by code_simp

lemma X_held_after_2: "held_to_draw 9 [0, 2, 4, 8, 5, 6, 3, 7, 1] PLAYER_X (after_first 2)"
  by code_simp

lemma X_held_after_3: "held_to_draw 9 [0, 3, 4, 8, 5, 6, 7, 2, 1] PLAYER_X (after_first 3)"
  by code_simp

lemma X_held_after_4: "held_to_draw 9 [0, 4, 6, 3, 1, 2, 5, 7, 8] PLAYER_X (after_first 4)"
  by code_simp

lemma X_held_after_5: "held_to_draw 9 [0, 4, 5, 8, 2, 6, 7, 3, 1] PLAYER_X (after_first 5)"
  by code_simp

lemma X_held_after_6: "held_to_draw 9 [0, 4, 6, 8, 7, 1, 3, 5, 2] PLAYER_X (after_first 6)"
  by code_simp

lemma X_held_after_7: "held_to_draw 9 [0, 4, 7, 8, 6, 2, 3, 5, 1] PLAYER_X (after_first 7)"
  by code_simp

lemma X_held_after_8: "held_to_draw 9 [0, 4, 6, 5, 7, 2, 3, 1, 8] PLAYER_X (after_first 8)"
  by code_simp

lemma legal_moves_initial: "legal_moves initial_state = [0, 1, 2, 3, 4, 5, 6, 7, 8]"
  by code_simp

lemma apply_move_initial:
  "m \<in> set (legal_moves initial_state) \<Longrightarrow> apply_move initial_state m = Inr (after_first (nat m))"
  unfolding legal_moves_initial
  by (auto simp: apply_move_def initial_state_def after_first_def GameState_init_def
        other_player_def PLAYER_X_def PLAYER_O_def EMPTY_def numeral_eq_Suc)

lemma valid_opening: "valid_state (after_first m)"
  by (simp add: valid_state_def after_first_def)

lemma valid_initial: "valid_state initial_state"
  by (simp add: valid_state_def initial_state_def)

lemma X_held_after_opening:
  assumes "m \<in> set (legal_moves initial_state)"
  shows "\<exists>v. child_value initial_state PLAYER_X m = Inr v \<and> v \<le> 1 / 2"
proof -
  from assms have "\<exists>order. held_to_draw 9 order PLAYER_X (after_first (nat m))"
    unfolding legal_moves_initial
    using X_held_after_0 X_held_after_1 X_held_after_2 X_held_after_3 X_held_after_4
      X_held_after_5 X_held_after_6 X_held_after_7 X_held_after_8
    by auto
  then obtain order where "held_to_draw 9 order PLAYER_X (after_first (nat m))" ..
  from held_to_draw_sound[OF this valid_opening] apply_move_initial[OF assms]
  show ?thesis by (simp add: child_value_def)
qed

lemma terminal_value_initial: "terminal_value initial_state p = None"
proof -
  have "terminal_outcome initial_state = None" by code_simp
  then show ?thesis by (simp add: terminal_value_None)
qed

lemma minimax_value_initial: "minimax_value initial_state PLAYER_X = Inr (1 / 2)"
proof -
  from secures_draw_sound[OF X_secures_draw valid_initial] obtain v where
    v: "minimax_value initial_state PLAYER_X = Inr v" "1 / 2 \<le> v" by blast
  from minimax_value_children[OF valid_initial terminal_value_initial, of PLAYER_X]
  obtain vs where vs: "vs \<noteq> []"
    "list_all2 (\<lambda>move v. child_value initial_state PLAYER_X move = Inr v)
       (legal_moves initial_state) vs"
    "minimax_value initial_state PLAYER_X = Inr (Max (set vs))"
    by (auto simp: initial_state_def)
  have "w \<le> 1 / 2" if "w \<in> set vs" for w
  proof -
    from list_all2_witness'[OF vs(2) that] obtain m where
      m: "m \<in> set (legal_moves initial_state)" "child_value initial_state PLAYER_X m = Inr w"
      by blast
    from X_held_after_opening[OF m(1)] m(2) show ?thesis by simp
  qed
  with vs(1) have "Max (set vs) \<le> 1 / 2" by simp
  with v vs(3) show ?thesis by simp
qed

lemma legal_moves_forced_win: "legal_moves forced_win_state = [2, 5, 6, 7, 8]"
  by code_simp

lemma valid_forced_win: "valid_state forced_win_state"
  by (simp add: valid_state_def forced_win_state_def PLAYER_X_def)

lemma forced_win_move_2: "child_value forced_win_state PLAYER_X 2 = Inr 1"
proof -
  have a: "apply_move forced_win_state 2 = Inr won_state"
    by (simp add: apply_move_def forced_win_state_def won_state_def GameState_init_def
          other_player_def PLAYER_X_def PLAYER_O_def EMPTY_def)
  have "terminal_outcome won_state = Some PLAYER_X"
    by (simp add: won_state_def terminal_outcome_def winner_def WIN_LINES_def EMPTY_def
          PLAYER_X_def)
  from minimax_value_terminal[OF terminal_value_Some[OF this, of PLAYER_X]]
  have "minimax_value won_state PLAYER_X = Inr 1"
    by (simp add: PLAYER_X_def DRAW_def)
  with a show ?thesis by (simp add: child_value_def)
qed

lemma forced_win_other_moves:
  assumes "m \<in> {5, 6, 7, 8}"
  shows "\<exists>v. child_value forced_win_state PLAYER_X m = Inr v \<and> v \<le> 1 / 2"
proof -
  have h: "case apply_move forced_win_state k of
             Inl e \<Rightarrow> False
           | Inr c \<Rightarrow> valid_state c \<and> held_to_draw 7 [5, 2, 6, 7, 8] PLAYER_X c"
    if "k \<in> {5, 6, 7, 8}" for k
    using that by (elim insertE emptyE; hypsubst; code_simp)
  from h[OF assms] obtain c where
    c: "apply_move forced_win_state m = Inr c" "valid_state c"
       "held_to_draw 7 [5, 2, 6, 7, 8] PLAYER_X c"
    by (cases "apply_move forced_win_state m") auto
  from held_to_draw_sound[OF c(3) c(2)] c(1) show ?thesis by (simp add: child_value_def)
qed

lemma best_moves_forced_win: "best_moves forced_win_state = Inr [(2, 1)]"
proof -
  have ne: "legal_moves forced_win_state \<noteq> []"
    by (simp add: legal_moves_forced_win)
  from best_moves_char[OF valid_forced_win ne] obtain value_of where
    v: "\<forall>m \<in> set (legal_moves forced_win_state).
          child_value forced_win_state (player forced_win_state) m = Inr (value_of m) \<and>
          value_of m \<in> {0, 1 / 2, 1}"
    and b: "best_moves forced_win_state =
             Inr (map (\<lambda>m. (m, value_of m))
                    (filter (\<lambda>m. value_of m = Max (value_of ` set (legal_moves forced_win_state)))
                       (legal_moves forced_win_state)))"
    by blast
  have p: "player forced_win_state = PLAYER_X"
    by (simp add: forced_win_state_def PLAYER_X_def)
  have cv: "child_value forced_win_state PLAYER_X m = Inr (value_of m)"
    if "m \<in> {2, 5, 6, 7, 8}" for m
  proof -
    from that have "m \<in> set (legal_moves forced_win_state)"
      by (simp add: legal_moves_forced_win)
    with v p show ?thesis by metis
  qed
  from cv[of 2] forced_win_move_2 have v2: "value_of 2 = 1" by simp
  have vo: "value_of m \<le> 1 / 2" if "m \<in> {5, 6, 7, 8}" for m
  proof -
    from that have "m \<in> {2, 5, 6, 7, 8}" by blast
    from cv[OF this] forced_win_other_moves[OF that] show ?thesis by simp
  qed
  have "Max (value_of ` {2, 5, 6, 7, 8}) = 1"
  proof (rule Max_eqI)
    show "finite (value_of ` {2, 5, 6, 7, 8})" by simp
    show "1 \<in> value_of ` {2, 5, 6, 7, 8}" using v2 by force
    fix y assume "y \<in> value_of ` {2, 5, 6, 7, 8}"
    then obtain m where m: "y = value_of m" "m = 2 \<or> m \<in> {5, 6, 7, 8}" by blast
    from m(2) show "y \<le> 1"
    proof
      assume "m = 2" with m(1) v2 show ?thesis by simp
    next
      assume "m \<in> {5, 6, 7, 8}" from vo[OF this] m(1) show ?thesis by simp
    qed
  qed
  then have mx: "Max (value_of ` set (legal_moves forced_win_state)) = 1"
    by (simp add: legal_moves_forced_win)
  have n5: "value_of 5 \<noteq> 1" using vo[of 5] by simp
  have n6: "value_of 6 \<noteq> 1" using vo[of 6] by simp
  have n7: "value_of 7 \<noteq> 1" using vo[of 7] by simp
  have n8: "value_of 8 \<noteq> 1" using vo[of 8] by simp
  show ?thesis
    unfolding b mx unfolding legal_moves_forced_win
    by (simp add: v2 n5 n6 n7 n8)
qed

text \<open>
  Claim C1. On a state the constructor accepts, \<open>minimax_value\<close> returns the terminal
  value when the state is terminal; otherwise every legal move can be applied, every child
  has a value, and the result is the maximum of the children's values when the mover is
  the perspective and their minimum when it is not. The value of the initial state for X
  is 1/2.
\<close>

theorem minimax_value_spec:
  assumes "valid_state state"
  shows "(\<forall>t. terminal_value state p = Some t \<longrightarrow> minimax_value state p = Inr t) \<and>
         (terminal_value state p = None \<longrightarrow>
            (\<exists>vs. vs \<noteq> [] \<and>
               list_all2
                 (\<lambda>move v. \<exists>child. apply_move state move = Inr child \<and>
                                     minimax_value child p = Inr v)
                 (legal_moves state) vs \<and>
               minimax_value state p =
                 Inr (if player state = p then Max (set vs) else Min (set vs)))) \<and>
         minimax_value initial_state PLAYER_X = Inr (1 / 2)"
  using minimax_value_children[OF assms, of p] minimax_value_terminal[of state p]
    minimax_value_initial
  by (simp add: child_value_Inr)

theorem minimax_value_spec_witness:
  "valid_state drawn_state \<and> terminal_value drawn_state PLAYER_X = Some (1 / 2) \<and>
   minimax_value drawn_state PLAYER_X = Inr (1 / 2) \<and>
   minimax_value initial_state PLAYER_X = Inr (1 / 2)"
proof -
  have v: "valid_state drawn_state"
    by (simp add: valid_state_def drawn_state_def PLAYER_X_def)
  have "terminal_outcome drawn_state = Some DRAW"
    by (simp add: drawn_state_def terminal_outcome_def winner_def WIN_LINES_def EMPTY_def)
  then have t: "terminal_value drawn_state PLAYER_X = Some (1 / 2)"
    by (simp add: terminal_value_def)
  from minimax_value_spec[OF v, of PLAYER_X] have
    a: "\<forall>t. terminal_value drawn_state PLAYER_X = Some t \<longrightarrow>
           minimax_value drawn_state PLAYER_X = Inr t"
    and b: "minimax_value initial_state PLAYER_X = Inr (1 / 2)" by blast+
  from a t have "minimax_value drawn_state PLAYER_X = Inr (1 / 2)" by blast
  with v t b show ?thesis by blast
qed

text \<open>
  Claim C2. On a state the constructor accepts that has a legal move, every child has a
  minimax value \<open>value_of m\<close> from the perspective of the mover of the parent state, and
  \<open>best_moves\<close> returns, in the order of the legal moves and each with its value, exactly
  the moves whose value is the maximum: every tied move is kept. On X X . / O O . / . . .
  with X to move \<open>best_moves\<close> returns move 2 with value 1 and nothing else, and
  \<open>choose_perfect_move\<close> returns move 2 with value 1 whatever the generator.
\<close>

theorem best_moves_spec:
  assumes "valid_state state" "legal_moves state \<noteq> []"
  shows "(\<exists>value_of.
            (\<forall>m \<in> set (legal_moves state).
               \<exists>child. apply_move state m = Inr child \<and>
                       minimax_value child (player state) = Inr (value_of m)) \<and>
            best_moves state =
              Inr (map (\<lambda>m. (m, value_of m))
                     (filter (\<lambda>m. value_of m = Max (value_of ` set (legal_moves state)))
                        (legal_moves state)))) \<and>
         best_moves forced_win_state = Inr [(2, 1)] \<and>
         (\<forall>rng module_random. \<exists>rng' module_random'.
            choose_perfect_move forced_win_state rng module_random =
              Inr ((2, 1), rng', module_random'))"
proof -
  from best_moves_char[OF assms] obtain value_of where
    "\<forall>m \<in> set (legal_moves state).
        child_value state (player state) m = Inr (value_of m) \<and> value_of m \<in> {0, 1 / 2, 1}"
    "best_moves state =
       Inr (map (\<lambda>m. (m, value_of m))
              (filter (\<lambda>m. value_of m = Max (value_of ` set (legal_moves state)))
                 (legal_moves state)))"
    by blast
  then have g: "\<exists>value_of.
            (\<forall>m \<in> set (legal_moves state).
               \<exists>child. apply_move state m = Inr child \<and>
                       minimax_value child (player state) = Inr (value_of m)) \<and>
            best_moves state =
              Inr (map (\<lambda>m. (m, value_of m))
                     (filter (\<lambda>m. value_of m = Max (value_of ` set (legal_moves state)))
                        (legal_moves state)))"
    by (auto simp: child_value_Inr intro!: exI[of _ value_of])
  have c: "\<exists>rng' module_random'.
            choose_perfect_move forced_win_state rng module_random =
              Inr ((2, 1), rng', module_random')" for rng module_random
  proof (cases rng)
    case None
    obtain k r' where "randbelow_raw module_random 1 = (k, r')"
      by (cases "randbelow_raw module_random 1") auto
    with None show ?thesis
      by (simp add: choose_perfect_move_def best_moves_forced_win choice_def)
  next
    case (Some picker)
    obtain k r' where "randbelow_raw picker 1 = (k, r')"
      by (cases "randbelow_raw picker 1") auto
    with Some show ?thesis
      by (simp add: choose_perfect_move_def best_moves_forced_win choice_def)
  qed
  from g c best_moves_forced_win show ?thesis by blast
qed

theorem best_moves_spec_witness:
  "valid_state forced_win_state \<and> legal_moves forced_win_state \<noteq> [] \<and>
   best_moves forced_win_state = Inr [(2, 1)] \<and>
   (\<exists>rng'. choose_perfect_move forced_win_state (Some zero_rng) zero_rng =
              Inr ((2, 1), rng'))"
proof -
  have ne: "legal_moves forced_win_state \<noteq> []"
    by (simp add: legal_moves_forced_win)
  from best_moves_spec[OF valid_forced_win ne] have
    "best_moves forced_win_state = Inr [(2, 1)]"
    "\<exists>rng' module_random'.
       choose_perfect_move forced_win_state (Some zero_rng) zero_rng =
         Inr ((2, 1), rng', module_random')"
    by blast+
  with valid_forced_win ne show ?thesis by auto
qed

section \<open>Position evaluators (Homework4/solutions/evaluators.py)\<close>

text \<open>
  What the evaluators take from outside the program: \<open>random.Random(seed)\<close> for an
  integer seed (a fixed algorithm), \<open>random.Random(None)\<close> (seeded from the operating
  system), the seed \<open>int(sha256(key).hexdigest()[:16], 16)\<close> of a cache key, and the
  remote scoring service. \<open>openai_request pf k model prompt\<close> is the outcome of the
  \<open>k\<close>-th request: the probability parsed from the response, or the exception raised
  by the transport, the JSON decoder or the parser.
\<close>

record platform =
  Random_seeded :: "int \<Rightarrow> rng"
  Random_unseeded :: rng
  sha256_seed :: "string \<Rightarrow> int"
  openai_request :: "nat \<Rightarrow> string \<Rightarrow> string \<Rightarrow> error + real"

definition Random :: "platform \<Rightarrow> int option \<Rightarrow> rng" where
  "Random pf seed = (case seed of None \<Rightarrow> Random_unseeded pf | Some s \<Rightarrow> Random_seeded pf s)"

subsection \<open>RandomRolloutEvaluator\<close>

text \<open>
  The evaluator's only state is its generator (\<open>self.rng\<close>; the field is named
  \<open>rollout_rng\<close> here, the agent's \<open>agent_rng\<close>). \<open>evaluate\<close> returns its result
  with the evaluator as the call left it.
\<close>

record RandomRolloutEvaluator =
  rollout_rng :: rng

definition RandomRolloutEvaluator_init :: "platform \<Rightarrow> int option \<Rightarrow> RandomRolloutEvaluator" where
  "RandomRolloutEvaluator_init pf seed = \<lparr>rollout_rng = Random pf seed\<rparr>"

definition outcome_value :: "string \<Rightarrow> string \<Rightarrow> real" where
  "outcome_value outcome root_player =
     (if outcome = DRAW then 1 / 2 else if outcome = root_player then 1 else 0)"

function random_rollout :: "GameState \<Rightarrow> string \<Rightarrow> rng \<Rightarrow> (error + real) \<times> rng" where
  "random_rollout sim root_player r =
     (case terminal_outcome sim of
        Some outcome \<Rightarrow> (Inr (outcome_value outcome root_player), r)
      | None \<Rightarrow>
          (case choice r (legal_moves sim) of
             Inl e \<Rightarrow> (Inl e, r)
           | Inr (move, r') \<Rightarrow>
               (case apply_move sim move of
                  Inl e \<Rightarrow> (Inl e, r')
                | Inr sim' \<Rightarrow> random_rollout sim' root_player r')))"
  by pat_completeness auto
termination
  by (relation "measure (\<lambda>(s, p, r). empties s)") (auto dest: apply_move_empties)

declare random_rollout.simps [simp del]

definition RandomRolloutEvaluator_evaluate ::
  "RandomRolloutEvaluator \<Rightarrow> GameState \<Rightarrow> string \<Rightarrow> (error + real) \<times> RandomRolloutEvaluator" where
  "RandomRolloutEvaluator_evaluate self state root_player =
     (case terminal_value state root_player of
        Some terminal \<Rightarrow> (Inr terminal, self)
      | None \<Rightarrow>
          (case random_rollout state root_player (rollout_rng self) of
             (res, r') \<Rightarrow> (res, self\<lparr>rollout_rng := r'\<rparr>)))"

subsection \<open>LLMPositionEvaluator\<close>

text \<open>
  The functions whose Python names start with an underscore keep their names without it.
  The HTTP exchange and the parsing of the response are not modelled: the platform gives
  the parsed probability or the exception. Floats are reals.
\<close>

record EvaluatorStats =
  cache_hits :: nat
  cache_misses :: nat
  api_calls :: nat
  fallback_to_heuristic :: nat
  guided_rollouts :: nat

record LLMPositionEvaluator =
  provider :: string
  model :: string
  api_key :: string
  timeout_seconds :: int
  heuristic_weight :: real
  rollout_samples :: int
  cache_path :: "string option"
  cache :: "string \<rightharpoonup> real"
  stats :: EvaluatorStats

definition clamp :: "real \<Rightarrow> real \<Rightarrow> real \<Rightarrow> real" where
  "clamp v lo hi = max lo (min hi v)"

text \<open>
  The cache file as \<open>__init__\<close> finds it: absent, unreadable (not JSON, or a value
  that \<open>float\<close> rejects), a JSON value that is not an object, or an object whose values
  \<open>float\<close> has converted.
\<close>

datatype cache_file = NoFile | Malformed | JsonOther | JsonObject "string \<rightharpoonup> real"

text \<open>
  \<open>str.lower\<close> and \<open>str.strip\<close> on the characters a \<open>string\<close> of the model
  holds, the code points below 256: the upper-case letters are A to Z and U+00C0 to
  U+00DE without the multiplication sign U+00D7, each 32 below its lower-case letter;
  the white space is U+0009 to U+000D, U+001C to U+0020, U+0085 and U+00A0.
\<close>

definition py_lower :: "string \<Rightarrow> string" where
  "py_lower s =
     map (\<lambda>c. let n = (of_char c :: nat) in
               if (65 \<le> n \<and> n \<le> 90) \<or> (192 \<le> n \<and> n \<le> 222 \<and> n \<noteq> 215)
               then char_of (n + 32) else c) s"

definition py_isspace :: "char \<Rightarrow> bool" where
  "py_isspace c =
     ((of_char c :: nat) \<in> set [9, 10, 11, 12, 13, 28, 29, 30, 31, 32, 133, 160])"

definition py_strip :: "string \<Rightarrow> string" where
  "py_strip s = rev (dropWhile py_isspace (rev (dropWhile py_isspace s)))"

definition LLMPositionEvaluator_init ::
  "string \<Rightarrow> string \<Rightarrow> string option \<Rightarrow> string \<Rightarrow> string option \<Rightarrow> cache_file \<Rightarrow> int \<Rightarrow> real \<Rightarrow> int
     \<Rightarrow> LLMPositionEvaluator" where
  "LLMPositionEvaluator_init provider_arg model_arg api_key_arg env_api_key cache_path_arg disk
       timeout_arg heuristic_weight_arg rollout_samples_arg =
     \<lparr>provider = py_strip (py_lower provider_arg),
      model = model_arg,
      api_key = (case api_key_arg of Some k \<Rightarrow> k | None \<Rightarrow> env_api_key),
      timeout_seconds = timeout_arg,
      heuristic_weight = clamp heuristic_weight_arg 0 1,
      rollout_samples = max 0 rollout_samples_arg,
      cache_path = (case cache_path_arg of None \<Rightarrow> None | Some p \<Rightarrow> if p = [] then None else Some p),
      cache =
        (case cache_path_arg of
           None \<Rightarrow> Map.empty
         | Some p \<Rightarrow>
             if p = [] then Map.empty
             else (case disk of JsonObject loaded \<Rightarrow> loaded | _ \<Rightarrow> Map.empty)),
      stats = \<lparr>cache_hits = 0, cache_misses = 0, api_calls = 0, fallback_to_heuristic = 0,
               guided_rollouts = 0\<rparr>\<rparr>"

definition count_open_lines :: "string list \<Rightarrow> string \<Rightarrow> nat \<Rightarrow> nat" where
  "count_open_lines cells player_arg player_marks =
     (let opponent = (if player_arg \<noteq> PLAYER_X then PLAYER_X else PLAYER_O) in
      length (filter
        (\<lambda>(a, b, c). let marks = [cells ! a, cells ! b, cells ! c] in
           count_list marks opponent = 0 \<and> count_list marks player_arg = player_marks)
        [(0, 1, 2), (3, 4, 5), (6, 7, 8), (0, 3, 6), (1, 4, 7), (2, 5, 8), (0, 4, 8), (2, 4, 6)]))"

fun winning_moves_loop :: "GameState \<Rightarrow> int list \<Rightarrow> int list \<Rightarrow> error + int list" where
  "winning_moves_loop state [] winners = Inr winners"
| "winning_moves_loop state (move # rest) winners =
     (case apply_move state move of
        Inl e \<Rightarrow> Inl e
      | Inr next_state \<Rightarrow>
          winning_moves_loop state rest
            (if terminal_outcome next_state = Some (player state) then winners @ [move]
             else winners))"

definition winning_moves_for_current_player :: "GameState \<Rightarrow> int list option \<Rightarrow> error + int list" where
  "winning_moves_for_current_player state legal =
     (let moves = (case legal of Some l \<Rightarrow> l | None \<Rightarrow> legal_moves state) in
      winning_moves_loop state moves [])"

fun safe_moves_loop :: "GameState \<Rightarrow> int list \<Rightarrow> int list \<Rightarrow> error + int list" where
  "safe_moves_loop state [] safe_moves = Inr safe_moves"
| "safe_moves_loop state (move # rest) safe_moves =
     (case apply_move state move of
        Inl e \<Rightarrow> Inl e
      | Inr next_state \<Rightarrow>
          (case winning_moves_for_current_player next_state (Some (legal_moves next_state)) of
             Inl e \<Rightarrow> Inl e
           | Inr ws \<Rightarrow>
               safe_moves_loop state rest (if ws = [] then safe_moves @ [move] else safe_moves)))"

definition rollout_policy_move :: "GameState \<Rightarrow> rng \<Rightarrow> error + (int \<times> rng)" where
  "rollout_policy_move state r =
     (let legal = legal_moves state in
      case winning_moves_for_current_player state (Some legal) of
        Inl e \<Rightarrow> Inl e
      | Inr winning \<Rightarrow>
          if winning \<noteq> [] then choice r winning
          else (case safe_moves_loop state legal [] of
                  Inl e \<Rightarrow> Inl e
                | Inr safe_moves \<Rightarrow>
                    let candidate_moves = (if safe_moves \<noteq> [] then safe_moves else legal) in
                    if 4 \<in> set candidate_moves then Inr (4, r)
                    else let corners = filter (\<lambda>m. m \<in> set [0, 2, 6, 8]) candidate_moves in
                         if corners \<noteq> [] then choice r corners else choice r candidate_moves))"

function guided_rollout :: "GameState \<Rightarrow> string \<Rightarrow> rng \<Rightarrow> error + (real \<times> rng)" where
  "guided_rollout sim root_player r =
     (case terminal_outcome sim of
        Some outcome \<Rightarrow> Inr (outcome_value outcome root_player, r)
      | None \<Rightarrow>
          (case rollout_policy_move sim r of
             Inl e \<Rightarrow> Inl e
           | Inr (move, r') \<Rightarrow>
               (case apply_move sim move of
                  Inl e \<Rightarrow> Inl e
                | Inr sim' \<Rightarrow> guided_rollout sim' root_player r')))"
  by pat_completeness auto
termination
  by (relation "measure (\<lambda>(s, p, r). empties s)") (auto dest: apply_move_empties)

declare guided_rollout.simps [simp del]

fun guided_rollout_loop ::
  "nat \<Rightarrow> GameState \<Rightarrow> string \<Rightarrow> rng \<Rightarrow> real \<Rightarrow> EvaluatorStats \<Rightarrow> (error + real) \<times> EvaluatorStats" where
  "guided_rollout_loop 0 state root_player r total_value st = (Inr total_value, st)"
| "guided_rollout_loop (Suc n) state root_player r total_value st =
     (let st' = st\<lparr>guided_rollouts := guided_rollouts st + 1\<rparr> in
      case guided_rollout state root_player r of
        Inl e \<Rightarrow> (Inl e, st')
      | Inr (v, r') \<Rightarrow> guided_rollout_loop n state root_player r' (total_value + v) st')"

definition guided_rollout_average ::
  "platform \<Rightarrow> LLMPositionEvaluator \<Rightarrow> GameState \<Rightarrow> string \<Rightarrow> string
     \<Rightarrow> (error + real) \<times> LLMPositionEvaluator" where
  "guided_rollout_average pf self state root_player key =
     (if rollout_samples self \<le> 0 then (Inr (1 / 2), self)
      else
        let seed = sha256_seed pf key;
            r = Random pf (Some seed)
        in case guided_rollout_loop (nat (rollout_samples self)) state root_player r 0 (stats self) of
             (Inl e, st) \<Rightarrow> (Inl e, self\<lparr>stats := st\<rparr>)
           | (Inr total_value, st) \<Rightarrow>
               (Inr (total_value / real_of_int (rollout_samples self)), self\<lparr>stats := st\<rparr>))"

definition heuristic_score :: "GameState \<Rightarrow> string \<Rightarrow> real" where
  "heuristic_score state root_player =
     (let cells = board state;
          opp = other_player root_player;
          score0 = (if player state = root_player then 0.25 else - 0.25);
          score1 = (if cells ! 4 = root_player then score0 + 0.65
                    else if cells ! 4 = opp then score0 - 0.65 else score0);
          corners = [0, 2, 6, 8];
          root_corners = int (length (filter (\<lambda>idx. cells ! idx = root_player) corners));
          opp_corners = int (length (filter (\<lambda>idx. cells ! idx = opp) corners));
          score2 = score1 + 0.20 * real_of_int (root_corners - opp_corners);
          root_two = int (count_open_lines cells root_player 2);
          opp_two = int (count_open_lines cells opp 2);
          root_one = int (count_open_lines cells root_player 1);
          opp_one = int (count_open_lines cells opp 1);
          score3 = score2 + 0.95 * real_of_int (root_two - opp_two);
          score4 = score3 + 0.18 * real_of_int (root_one - opp_one);
          score5 = (if player state = root_player \<and> root_two > 0 then score4 + 0.75 else score4);
          score6 = (if player state \<noteq> root_player \<and> opp_two > 0 then score5 - 0.75 else score5)
      in score6)"

definition heuristic_value ::
  "platform \<Rightarrow> LLMPositionEvaluator \<Rightarrow> GameState \<Rightarrow> string \<Rightarrow> string
     \<Rightarrow> (error + real) \<times> LLMPositionEvaluator" where
  "heuristic_value pf self state root_player key =
     (let score = heuristic_score state root_player;
          base_probability = 1 / (1 + exp (- score))
      in case guided_rollout_average pf self state root_player key of
           (Inl e, self') \<Rightarrow> (Inl e, self')
         | (Inr rollout_probability, self') \<Rightarrow>
             let blended = heuristic_weight self * base_probability
                           + (1 - heuristic_weight self) * rollout_probability;
                 calibrated = 0.5 + (blended - 0.5) * 0.85
             in (Inr (clamp calibrated 0 1), self'))"

definition join :: "string \<Rightarrow> string list \<Rightarrow> string" where
  "join sep xs = (case xs of [] \<Rightarrow> [] | x # rest \<Rightarrow> x @ concat (map (\<lambda>y. sep @ y) rest))"

definition build_prompt :: "GameState \<Rightarrow> string \<Rightarrow> string" where
  "build_prompt state root_player =
     (let cells = board state;
          rows = map (\<lambda>idx. join '' '' (take 3 (drop idx cells))) [0, 3, 6];
          nl = [CHR 0x0A]
      in ''Root player: '' @ root_player @ nl
         @ ''Player to move: '' @ player state @ nl
         @ ''Board:'' @ nl
         @ rows ! 0 @ nl @ rows ! 1 @ nl @ rows ! 2 @ nl
         @ ''Return only JSON.'')"

definition evaluate_with_openai ::
  "platform \<Rightarrow> LLMPositionEvaluator \<Rightarrow> GameState \<Rightarrow> string
     \<Rightarrow> (error + real) \<times> LLMPositionEvaluator" where
  "evaluate_with_openai pf self state root_player =
     (let k = api_calls (stats self);
          self' = self\<lparr>stats := (stats self)\<lparr>api_calls := k + 1\<rparr>\<rparr>;
          prompt = build_prompt state root_player
      in case openai_request pf k (model self) prompt of
           Inl e \<Rightarrow> (Inl e, self')
         | Inr probability \<Rightarrow> (Inr (clamp probability 0 1), self'))"

definition count_fallback :: "LLMPositionEvaluator \<Rightarrow> LLMPositionEvaluator" where
  "count_fallback self =
     self\<lparr>stats := (stats self)\<lparr>fallback_to_heuristic := fallback_to_heuristic (stats self) + 1\<rparr>\<rparr>"

definition cache_key :: "LLMPositionEvaluator \<Rightarrow> GameState \<Rightarrow> string \<Rightarrow> string" where
  "cache_key self state root_player =
     provider self @ ''|'' @ model self @ ''|'' @ root_player @ ''|'' @ state_key state"

definition LLMPositionEvaluator_evaluate ::
  "platform \<Rightarrow> LLMPositionEvaluator \<Rightarrow> GameState \<Rightarrow> string
     \<Rightarrow> (error + real) \<times> LLMPositionEvaluator" where
  "LLMPositionEvaluator_evaluate pf self state root_player =
     (case terminal_value state root_player of
        Some terminal \<Rightarrow> (Inr terminal, self)
      | None \<Rightarrow>
          let key = cache_key self state root_player in
          (case cache self key of
             Some v \<Rightarrow>
               (Inr v, self\<lparr>stats := (stats self)\<lparr>cache_hits := cache_hits (stats self) + 1\<rparr>\<rparr>)
           | None \<Rightarrow>
               let self1 = self\<lparr>stats := (stats self)\<lparr>cache_misses := cache_misses (stats self) + 1\<rparr>\<rparr>
               in case (if provider self1 = ''openai'' \<and> api_key self1 \<noteq> []
                        then (case evaluate_with_openai pf self1 state root_player of
                                (Inr value, self2) \<Rightarrow> (Inr value, self2)
                              | (Inl e, self2) \<Rightarrow>
                                  heuristic_value pf (count_fallback self2) state root_player key)
                        else heuristic_value pf
                               (if provider self1 = ''openai'' \<and> api_key self1 = []
                                then count_fallback self1 else self1)
                               state root_player key) of
                    (Inl e, self3) \<Rightarrow> (Inl e, self3)
                  | (Inr value, self3) \<Rightarrow>
                      (Inr value, self3\<lparr>cache := (cache self3)(key \<mapsto> value)\<rparr>)))"

subsection \<open>Facts about the evaluators\<close>

lemma outcome_value_range: "outcome_value w p \<in> {0, 1 / 2, 1}"
  by (simp add: outcome_value_def)

lemma outcome_value_bounds: "0 \<le> outcome_value w p \<and> outcome_value w p \<le> 1"
  by (simp add: outcome_value_def)

lemma clamp_bounds: "0 \<le> clamp v 0 1 \<and> clamp v 0 1 \<le> 1"
  by (simp add: clamp_def)

lemma random_rollout_total:
  "valid_state s \<Longrightarrow> \<exists>v r'. random_rollout s p r = (Inr v, r') \<and> v \<in> {0, 1 / 2, 1}"
proof (induction s p r rule: random_rollout.induct)
  case (1 sim root_player r)
  show ?case
  proof (cases "terminal_outcome sim")
    case (Some w)
    have "random_rollout sim root_player r = (Inr (outcome_value w root_player), r)"
      by (subst random_rollout.simps) (simp add: Some)
    with outcome_value_range[of w root_player] show ?thesis by blast
  next
    case None
    from choice_nonempty[OF nonterminal_has_moves[OF None], of r] obtain m r' where
      m: "choice r (legal_moves sim) = Inr (m, r')" "m \<in> set (legal_moves sim)" by blast
    from apply_move_legal[OF "1.prems" m(2)] obtain c where
      c: "apply_move sim m = Inr c" "valid_state c" by blast
    have "random_rollout sim root_player r = random_rollout c root_player r'"
      by (subst random_rollout.simps) (simp add: None m(1) c(1))
    with "1.IH"[OF None m(1) refl c(1) c(2)] show ?thesis by simp
  qed
qed

lemma winning_moves_loop_total:
  "(\<And>m. m \<in> set moves \<Longrightarrow> \<exists>c. apply_move s m = Inr c) \<Longrightarrow>
     \<exists>ws. winning_moves_loop s moves acc = Inr ws \<and> set ws \<subseteq> set acc \<union> set moves"
proof (induction moves arbitrary: acc)
  case Nil
  then show ?case by simp
next
  case (Cons m moves)
  from Cons.prems[of m] obtain c where c: "apply_move s m = Inr c" by auto
  define acc' where
    "acc' = (if terminal_outcome c = Some (player s) then acc @ [m] else acc)"
  from Cons.IH[of acc'] Cons.prems obtain ws where
    ws: "winning_moves_loop s moves acc' = Inr ws" "set ws \<subseteq> set acc' \<union> set moves"
    by auto
  have "set acc' \<subseteq> set acc \<union> {m}" by (auto simp: acc'_def)
  with ws c show ?case by (auto simp: acc'_def)
qed

lemma winning_moves_total:
  assumes "valid_state s"
  shows "\<exists>ws. winning_moves_for_current_player s (Some (legal_moves s)) = Inr ws \<and>
              set ws \<subseteq> set (legal_moves s)"
proof -
  have "\<exists>c. apply_move s m = Inr c" if "m \<in> set (legal_moves s)" for m
    using apply_move_legal[OF assms that] by blast
  from winning_moves_loop_total[of "legal_moves s" s "[]", OF this] show ?thesis
    by (simp add: winning_moves_for_current_player_def)
qed

lemma safe_moves_loop_total:
  "valid_state s \<Longrightarrow> set moves \<subseteq> set (legal_moves s) \<Longrightarrow>
     \<exists>ss. safe_moves_loop s moves acc = Inr ss \<and> set ss \<subseteq> set acc \<union> set moves"
proof (induction moves arbitrary: acc)
  case Nil
  then show ?case by simp
next
  case (Cons m moves)
  from Cons.prems have "m \<in> set (legal_moves s)" by simp
  from apply_move_legal[OF Cons.prems(1) this] obtain c where
    c: "apply_move s m = Inr c" "valid_state c" by blast
  from winning_moves_total[OF c(2)] obtain ws where
    ws: "winning_moves_for_current_player c (Some (legal_moves c)) = Inr ws" by blast
  define acc' where "acc' = (if ws = [] then acc @ [m] else acc)"
  from Cons.IH[of acc'] Cons.prems obtain ss where
    ss: "safe_moves_loop s moves acc' = Inr ss" "set ss \<subseteq> set acc' \<union> set moves"
    by auto
  have "set acc' \<subseteq> set acc \<union> {m}" by (auto simp: acc'_def)
  with ss c ws show ?case by (auto simp: acc'_def)
qed

lemma rollout_policy_move_total:
  assumes "valid_state s" "legal_moves s \<noteq> []"
  shows "\<exists>m r'. rollout_policy_move s r = Inr (m, r') \<and> m \<in> set (legal_moves s)"
proof -
  from winning_moves_total[OF assms(1)] obtain ws where
    ws: "winning_moves_for_current_player s (Some (legal_moves s)) = Inr ws"
        "set ws \<subseteq> set (legal_moves s)" by blast
  show ?thesis
  proof (cases "ws = []")
    case False
    from choice_nonempty[OF False, of r] obtain m r' where
      "choice r ws = Inr (m, r')" "m \<in> set ws" by blast
    with ws False show ?thesis by (auto simp: rollout_policy_move_def)
  next
    case True
    from safe_moves_loop_total[OF assms(1) subset_refl, of "[]"] obtain ss where
      ss: "safe_moves_loop s (legal_moves s) [] = Inr ss" "set ss \<subseteq> set (legal_moves s)"
      by auto
    define cand where "cand = (if ss \<noteq> [] then ss else legal_moves s)"
    have cand: "cand \<noteq> []" "set cand \<subseteq> set (legal_moves s)"
      using assms(2) ss(2) by (auto simp: cand_def)
    have unfold: "rollout_policy_move s r =
        (if 4 \<in> set cand then Inr (4, r)
         else if filter (\<lambda>m. m \<in> set [0, 2, 6, 8]) cand \<noteq> []
              then choice r (filter (\<lambda>m. m \<in> set [0, 2, 6, 8]) cand)
              else choice r cand)"
      using ws(1) True ss(1) by (simp add: rollout_policy_move_def cand_def Let_def)
    show ?thesis
    proof (cases "4 \<in> set cand")
      case True
      with unfold cand(2) show ?thesis by auto
    next
      case four: False
      show ?thesis
      proof (cases "filter (\<lambda>m. m \<in> set [0, 2, 6, 8]) cand = []")
        case True
        from choice_nonempty[OF cand(1), of r] obtain m r' where
          "choice r cand = Inr (m, r')" "m \<in> set cand" by blast
        with unfold four True cand(2) show ?thesis by auto
      next
        case False
        from choice_nonempty[OF False, of r] obtain m r' where
          "choice r (filter (\<lambda>m. m \<in> set [0, 2, 6, 8]) cand) = Inr (m, r')"
          "m \<in> set (filter (\<lambda>m. m \<in> set [0, 2, 6, 8]) cand)" by blast
        with unfold four False cand(2) show ?thesis by auto
      qed
    qed
  qed
qed

lemma guided_rollout_total:
  "valid_state s \<Longrightarrow>
     \<exists>v r'. guided_rollout s p r = Inr (v, r') \<and> 0 \<le> v \<and> v \<le> 1"
proof (induction s p r rule: guided_rollout.induct)
  case (1 sim root_player r)
  show ?case
  proof (cases "terminal_outcome sim")
    case (Some w)
    have "guided_rollout sim root_player r = Inr (outcome_value w root_player, r)"
      by (subst guided_rollout.simps) (simp add: Some)
    with outcome_value_bounds[of w root_player] show ?thesis by blast
  next
    case None
    from rollout_policy_move_total[OF "1.prems" nonterminal_has_moves[OF None], of r]
    obtain m r' where
      m: "rollout_policy_move sim r = Inr (m, r')" "m \<in> set (legal_moves sim)" by blast
    from apply_move_legal[OF "1.prems" m(2)] obtain c where
      c: "apply_move sim m = Inr c" "valid_state c" by blast
    have "guided_rollout sim root_player r = guided_rollout c root_player r'"
      by (subst guided_rollout.simps) (simp add: None m(1) c(1))
    with "1.IH"[OF None m(1) refl c(1) c(2)] show ?thesis by simp
  qed
qed

lemma guided_rollout_loop_total:
  "valid_state s \<Longrightarrow> 0 \<le> acc \<Longrightarrow>
     \<exists>t st'. guided_rollout_loop n s p r acc st = (Inr t, st') \<and> 0 \<le> t \<and> t \<le> acc + real n \<and>
       cache_hits st' = cache_hits st \<and> cache_misses st' = cache_misses st \<and>
       api_calls st' = api_calls st \<and> fallback_to_heuristic st' = fallback_to_heuristic st"
proof (induction n arbitrary: r acc st)
  case 0
  then show ?case by simp
next
  case (Suc n)
  from guided_rollout_total[OF Suc.prems(1), of p r] obtain v r' where
    v: "guided_rollout s p r = Inr (v, r')" "0 \<le> v" "v \<le> 1" by blast
  define st1 where "st1 = st\<lparr>guided_rollouts := guided_rollouts st + 1\<rparr>"
  from v(2) Suc.prems(2) have "0 \<le> acc + v" by simp
  from Suc.IH[OF Suc.prems(1) this, of r' st1] obtain t st' where
    t: "guided_rollout_loop n s p r' (acc + v) st1 = (Inr t, st')" "0 \<le> t"
       "t \<le> acc + v + real n"
       "cache_hits st' = cache_hits st1" "cache_misses st' = cache_misses st1"
       "api_calls st' = api_calls st1" "fallback_to_heuristic st' = fallback_to_heuristic st1"
    by blast
  have "guided_rollout_loop (Suc n) s p r acc st = (Inr t, st')"
    using v(1) t(1) by (simp add: st1_def)
  moreover from t(3) v(3) have "t \<le> acc + real (Suc n)" by simp
  ultimately show ?case using t by (simp add: st1_def)
qed

definition same_identity :: "LLMPositionEvaluator \<Rightarrow> LLMPositionEvaluator \<Rightarrow> bool" where
  "same_identity a b =
     (provider a = provider b \<and> model a = model b \<and> api_key a = api_key b \<and>
      timeout_seconds a = timeout_seconds b \<and> heuristic_weight a = heuristic_weight b \<and>
      rollout_samples a = rollout_samples b \<and> cache_path a = cache_path b)"

lemma guided_rollout_average_total:
  assumes "valid_state s"
  shows "\<exists>v self'. guided_rollout_average pf self s p key = (Inr v, self') \<and>
           0 \<le> v \<and> v \<le> 1 \<and> cache self' = cache self \<and> same_identity self' self \<and>
           cache_hits (stats self') = cache_hits (stats self) \<and>
           cache_misses (stats self') = cache_misses (stats self) \<and>
           api_calls (stats self') = api_calls (stats self) \<and>
           fallback_to_heuristic (stats self') = fallback_to_heuristic (stats self)"
proof (cases "rollout_samples self \<le> 0")
  case True
  then have "guided_rollout_average pf self s p key = (Inr (1 / 2), self)"
    by (simp add: guided_rollout_average_def)
  moreover have "(0::real) \<le> 1 / 2" "(1::real) / 2 \<le> 1" by simp_all
  ultimately show ?thesis unfolding same_identity_def by blast
next
  case False
  define n where "n = nat (rollout_samples self)"
  from False have n: "0 < n" "real_of_int (rollout_samples self) = real n"
    by (simp_all add: n_def)
  from guided_rollout_loop_total[OF assms, of 0 n p
      "Random pf (Some (sha256_seed pf key))" "stats self"]
  obtain t st' where
    t: "guided_rollout_loop n s p (Random pf (Some (sha256_seed pf key))) 0 (stats self) = (Inr t, st')"
       "0 \<le> t" "t \<le> real n"
       "cache_hits st' = cache_hits (stats self)" "cache_misses st' = cache_misses (stats self)"
       "api_calls st' = api_calls (stats self)"
       "fallback_to_heuristic st' = fallback_to_heuristic (stats self)"
    by auto
  have r: "guided_rollout_average pf self s p key = (Inr (t / real n), self\<lparr>stats := st'\<rparr>)"
    using False t(1) n(2) by (simp add: guided_rollout_average_def Let_def n_def)
  from t(2,3) n(1) have "0 \<le> t / real n" "t / real n \<le> 1" by simp_all
  with r t show ?thesis by (simp add: same_identity_def)
qed

lemma heuristic_value_total:
  assumes "valid_state s"
  shows "\<exists>v self'. heuristic_value pf self s p key = (Inr v, self') \<and>
           0 \<le> v \<and> v \<le> 1 \<and> cache self' = cache self \<and> same_identity self' self \<and>
           cache_hits (stats self') = cache_hits (stats self) \<and>
           cache_misses (stats self') = cache_misses (stats self) \<and>
           api_calls (stats self') = api_calls (stats self) \<and>
           fallback_to_heuristic (stats self') = fallback_to_heuristic (stats self)"
proof -
  from guided_rollout_average_total[OF assms, of pf self p key] obtain v self' where
    g: "guided_rollout_average pf self s p key = (Inr v, self')"
       "cache self' = cache self" "same_identity self' self"
       "cache_hits (stats self') = cache_hits (stats self)"
       "cache_misses (stats self') = cache_misses (stats self)"
       "api_calls (stats self') = api_calls (stats self)"
       "fallback_to_heuristic (stats self') = fallback_to_heuristic (stats self)"
    by blast
  then show ?thesis
    using clamp_bounds by (simp add: heuristic_value_def Let_def)
qed

lemma cache_key_same: "same_identity a b \<Longrightarrow> cache_key a s p = cache_key b s p"
  by (simp add: same_identity_def cache_key_def)

lemma evaluate_terminal:
  "terminal_value s p = Some t \<Longrightarrow> LLMPositionEvaluator_evaluate pf self s p = (Inr t, self)"
  by (simp add: LLMPositionEvaluator_evaluate_def)

lemma evaluate_hit:
  "terminal_value s p = None \<Longrightarrow> cache self (cache_key self s p) = Some v \<Longrightarrow>
     LLMPositionEvaluator_evaluate pf self s p =
       (Inr v, self\<lparr>stats := (stats self)\<lparr>cache_hits := cache_hits (stats self) + 1\<rparr>\<rparr>)"
  by (simp add: LLMPositionEvaluator_evaluate_def)

lemma evaluate_with_openai_cases:
  "(\<exists>e. evaluate_with_openai pf self s p =
           (Inl e, self\<lparr>stats := (stats self)\<lparr>api_calls := api_calls (stats self) + 1\<rparr>\<rparr>)) \<or>
   (\<exists>v. 0 \<le> v \<and> v \<le> 1 \<and>
        evaluate_with_openai pf self s p =
           (Inr v, self\<lparr>stats := (stats self)\<lparr>api_calls := api_calls (stats self) + 1\<rparr>\<rparr>))"
proof (cases "openai_request pf (api_calls (stats self)) (model self) (build_prompt s p)")
  case (Inl e)
  then show ?thesis by (simp add: evaluate_with_openai_def Let_def)
next
  case (Inr q)
  then have "evaluate_with_openai pf self s p =
      (Inr (clamp q 0 1), self\<lparr>stats := (stats self)\<lparr>api_calls := api_calls (stats self) + 1\<rparr>\<rparr>)"
    by (simp add: evaluate_with_openai_def Let_def)
  with clamp_bounds[of q] show ?thesis by blast
qed

lemma evaluate_miss:
  assumes "valid_state s" "terminal_value s p = None" "cache self (cache_key self s p) = None"
  shows "\<exists>v self'. LLMPositionEvaluator_evaluate pf self s p = (Inr v, self') \<and>
           0 \<le> v \<and> v \<le> 1 \<and>
           cache self' = (cache self)(cache_key self s p \<mapsto> v) \<and> same_identity self' self \<and>
           cache_hits (stats self') = cache_hits (stats self) \<and>
           cache_misses (stats self') = cache_misses (stats self) + 1"
proof -
  define key where "key = cache_key self s p"
  define self1 where
    "self1 = self\<lparr>stats := (stats self)\<lparr>cache_misses := cache_misses (stats self) + 1\<rparr>\<rparr>"
  define comp where
    "comp = (if provider self1 = ''openai'' \<and> api_key self1 \<noteq> []
             then (case evaluate_with_openai pf self1 s p of
                     (Inr value, self2) \<Rightarrow> (Inr value, self2)
                   | (Inl e, self2) \<Rightarrow> heuristic_value pf (count_fallback self2) s p key)
             else heuristic_value pf
                    (if provider self1 = ''openai'' \<and> api_key self1 = []
                     then count_fallback self1 else self1) s p key)"
  have ev: "LLMPositionEvaluator_evaluate pf self s p =
      (case comp of
         (Inl e, self3) \<Rightarrow> (Inl e, self3)
       | (Inr value, self3) \<Rightarrow> (Inr value, self3\<lparr>cache := (cache self3)(key \<mapsto> value)\<rparr>))"
    using assms(2,3)
    by (simp add: LLMPositionEvaluator_evaluate_def Let_def key_def[symmetric] self1_def comp_def)
  have good: "\<exists>v self3. heuristic_value pf x s p key = (Inr v, self3) \<and> 0 \<le> v \<and> v \<le> 1 \<and>
        cache self3 = cache self \<and> same_identity self3 self \<and>
        cache_hits (stats self3) = cache_hits (stats self) \<and>
        cache_misses (stats self3) = cache_misses (stats self) + 1"
    if "cache x = cache self" "same_identity x self"
       "cache_hits (stats x) = cache_hits (stats self)"
       "cache_misses (stats x) = cache_misses (stats self) + 1" for x
    using heuristic_value_total[OF assms(1), of pf x p key] that
    by (auto simp: same_identity_def)
  have s1: "cache self1 = cache self" "same_identity self1 self"
    "cache_hits (stats self1) = cache_hits (stats self)"
    "cache_misses (stats self1) = cache_misses (stats self) + 1"
    by (simp_all add: self1_def same_identity_def)
  have c1: "cache (count_fallback self1) = cache self" "same_identity (count_fallback self1) self"
    "cache_hits (stats (count_fallback self1)) = cache_hits (stats self)"
    "cache_misses (stats (count_fallback self1)) = cache_misses (stats self) + 1"
    by (simp_all add: self1_def same_identity_def count_fallback_def)
  define self2 where
    "self2 = self1\<lparr>stats := (stats self1)\<lparr>api_calls := api_calls (stats self1) + 1\<rparr>\<rparr>"
  have s2: "cache self2 = cache self" "same_identity self2 self"
    "cache_hits (stats self2) = cache_hits (stats self)"
    "cache_misses (stats self2) = cache_misses (stats self) + 1"
    by (simp_all add: self2_def self1_def same_identity_def)
  have c2: "cache (count_fallback self2) = cache self" "same_identity (count_fallback self2) self"
    "cache_hits (stats (count_fallback self2)) = cache_hits (stats self)"
    "cache_misses (stats (count_fallback self2)) = cache_misses (stats self) + 1"
    by (simp_all add: self2_def self1_def same_identity_def count_fallback_def)
  have "\<exists>v self3. comp = (Inr v, self3) \<and> 0 \<le> v \<and> v \<le> 1 \<and>
        cache self3 = cache self \<and> same_identity self3 self \<and>
        cache_hits (stats self3) = cache_hits (stats self) \<and>
        cache_misses (stats self3) = cache_misses (stats self) + 1"
  proof (cases "provider self1 = ''openai'' \<and> api_key self1 \<noteq> []")
    case True
    from evaluate_with_openai_cases[of pf self1 s p] show ?thesis
    proof (elim disjE exE conjE)
      fix e assume "evaluate_with_openai pf self1 s p =
          (Inl e, self1\<lparr>stats := (stats self1)\<lparr>api_calls := api_calls (stats self1) + 1\<rparr>\<rparr>)"
      with True have "comp = heuristic_value pf (count_fallback self2) s p key"
        by (simp add: comp_def self2_def)
      with good[OF c2] show ?thesis by simp
    next
      fix v assume "0 \<le> v" "v \<le> 1" "evaluate_with_openai pf self1 s p =
          (Inr v, self1\<lparr>stats := (stats self1)\<lparr>api_calls := api_calls (stats self1) + 1\<rparr>\<rparr>)"
      with True have "comp = (Inr v, self2)" "0 \<le> v" "v \<le> 1"
        by (simp_all add: comp_def self2_def)
      with s2 show ?thesis by blast
    qed
  next
    case False
    show ?thesis
    proof (cases "provider self1 = ''openai'' \<and> api_key self1 = []")
      case True
      with False have "comp = heuristic_value pf (count_fallback self1) s p key"
        by (simp add: comp_def)
      with good[OF c1] show ?thesis by simp
    next
      case no: False
      with False have "comp = heuristic_value pf self1 s p key"
        by (simp add: comp_def)
      with good[OF s1] show ?thesis by simp
    qed
  qed
  then obtain v self3 where
    c: "comp = (Inr v, self3)" "0 \<le> v" "v \<le> 1" "cache self3 = cache self"
       "same_identity self3 self" "cache_hits (stats self3) = cache_hits (stats self)"
       "cache_misses (stats self3) = cache_misses (stats self) + 1" by blast
  have "LLMPositionEvaluator_evaluate pf self s p =
      (Inr v, self3\<lparr>cache := (cache self3)(key \<mapsto> v)\<rparr>)"
    using ev c(1) by simp
  moreover have "same_identity (self3\<lparr>cache := (cache self3)(key \<mapsto> v)\<rparr>) self"
    using c(5) by (simp add: same_identity_def)
  ultimately show ?thesis using c by (simp add: key_def)
qed


lemma evaluate_total:
  assumes "valid_state s"
    and "\<And>w. cache self (cache_key self s p) = Some w \<Longrightarrow> 0 \<le> w \<and> w \<le> 1"
  shows "\<exists>v self'. LLMPositionEvaluator_evaluate pf self s p = (Inr v, self') \<and>
           0 \<le> v \<and> v \<le> 1 \<and> same_identity self' self"
proof (cases "terminal_value s p")
  case (Some t)
  from terminal_value_range[OF Some] have "0 \<le> t \<and> t \<le> 1" by auto
  with evaluate_terminal[OF Some, of pf self] show ?thesis
    by (auto simp: same_identity_def)
next
  case None
  show ?thesis
  proof (cases "cache self (cache_key self s p)")
    case (Some v)
    from assms(2)[OF Some] evaluate_hit[OF None Some, of pf] show ?thesis
      by (auto simp: same_identity_def)
  next
    case miss: None
    from evaluate_miss[OF assms(1) None miss, of pf] show ?thesis by blast
  qed
qed

lemma RandomRolloutEvaluator_total:
  assumes "valid_state s"
  shows "\<exists>v self'. RandomRolloutEvaluator_evaluate self s p = (Inr v, self') \<and> v \<in> {0, 1 / 2, 1}"
proof (cases "terminal_value s p")
  case (Some t)
  with terminal_value_range[OF Some] show ?thesis
    by (simp add: RandomRolloutEvaluator_evaluate_def)
next
  case None
  from random_rollout_total[OF assms, of p "rollout_rng self"] obtain v r' where
    "random_rollout s p (rollout_rng self) = (Inr v, r')" "v \<in> {0, 1 / 2, 1}" by blast
  with None show ?thesis by (simp add: RandomRolloutEvaluator_evaluate_def)
qed

subsection \<open>Example objects\<close>

definition example_platform :: platform where
  "example_platform =
     \<lparr>Random_seeded = (\<lambda>s. zero_rng), Random_unseeded = zero_rng, sha256_seed = (\<lambda>k. 0),
      openai_request = (\<lambda>k m p. Inl (RuntimeError ''offline''))\<rparr>"

definition default_evaluator :: LLMPositionEvaluator where
  "default_evaluator =
     LLMPositionEvaluator_init ''heuristic'' ''gpt-4.1-mini'' None [] None NoFile 25 0.7 4"

definition loaded_evaluator :: LLMPositionEvaluator where
  "loaded_evaluator =
     LLMPositionEvaluator_init ''heuristic'' ''gpt-4.1-mini'' None [] (Some ''cache.json'')
       (JsonObject [''heuristic|gpt-4.1-mini|X|.........:X'' \<mapsto> 2]) 25 0.7 4"

lemma provider_heuristic: "py_strip (py_lower ''heuristic'') = ''heuristic''"
  by code_simp

lemma state_key_initial: "state_key initial_state = ''.........:X''"
  by code_simp

lemma terminal_outcome_drawn: "terminal_outcome drawn_state = Some DRAW"
  by (simp add: drawn_state_def terminal_outcome_def winner_def WIN_LINES_def EMPTY_def)

lemma terminal_value_drawn: "terminal_value drawn_state p = Some (1 / 2)"
  by (simp add: terminal_value_def terminal_outcome_drawn)

lemma valid_drawn: "valid_state drawn_state"
  by (simp add: valid_state_def drawn_state_def PLAYER_X_def)

text \<open>
  Claim C4. On a terminal state both evaluator classes (the random rollout evaluator, and
  the LLM evaluator under every provider, cache and configuration) return exactly
  \<open>terminal_value state root_player\<close>, and leave the evaluator as it was: no generator
  is advanced, no cache or counter is touched.
\<close>

theorem evaluate_terminal_spec:
  assumes "terminal_outcome state \<noteq> None"
  shows "\<exists>t. terminal_value state root_player = Some t \<and>
             RandomRolloutEvaluator_evaluate rr state root_player = (Inr t, rr) \<and>
             LLMPositionEvaluator_evaluate pf llm state root_player = (Inr t, llm)"
proof -
  from assms obtain t where t: "terminal_value state root_player = Some t"
    using terminal_value_None[of state root_player] by (cases "terminal_value state root_player") auto
  then have "RandomRolloutEvaluator_evaluate rr state root_player = (Inr t, rr)"
    by (simp add: RandomRolloutEvaluator_evaluate_def)
  with t evaluate_terminal[OF t, of pf llm] show ?thesis by blast
qed

theorem evaluate_terminal_spec_witness:
  "terminal_outcome drawn_state \<noteq> None \<and>
   RandomRolloutEvaluator_evaluate (RandomRolloutEvaluator_init example_platform (Some 1))
       drawn_state PLAYER_X =
     (Inr (1 / 2), RandomRolloutEvaluator_init example_platform (Some 1)) \<and>
   LLMPositionEvaluator_evaluate example_platform loaded_evaluator drawn_state PLAYER_X =
     (Inr (1 / 2), loaded_evaluator)"
proof -
  have n: "terminal_outcome drawn_state \<noteq> None" by (simp add: terminal_outcome_drawn)
  from evaluate_terminal_spec[OF n, of PLAYER_X
      "RandomRolloutEvaluator_init example_platform (Some 1)" example_platform loaded_evaluator]
  obtain t where t: "terminal_value drawn_state PLAYER_X = Some t"
    "RandomRolloutEvaluator_evaluate (RandomRolloutEvaluator_init example_platform (Some 1))
       drawn_state PLAYER_X = (Inr t, RandomRolloutEvaluator_init example_platform (Some 1))"
    "LLMPositionEvaluator_evaluate example_platform loaded_evaluator drawn_state PLAYER_X =
       (Inr t, loaded_evaluator)"
    by blast
  from t(1) have "t = 1 / 2" unfolding terminal_value_drawn by simp
  with t n show ?thesis by blast
qed

text \<open>
  Claim C5, as amended. On a state the constructor accepts that is not terminal, a call of
  \<open>evaluate\<close> returns a value and keeps provider and model, and the next call with the
  same state and root player returns the same value, adds one to the cache-hit counter
  and changes nothing else (the cache and the other counters are the same). On a terminal
  state \<open>evaluate\<close> returns the terminal value before it looks at the cache.
\<close>

theorem evaluate_twice_spec:
  assumes "valid_state state"
  shows "(terminal_value state root_player = None \<longrightarrow>
            (\<exists>v self1.
               LLMPositionEvaluator_evaluate pf self state root_player = (Inr v, self1) \<and>
               provider self1 = provider self \<and> model self1 = model self \<and>
               LLMPositionEvaluator_evaluate pf' self1 state root_player =
                 (Inr v, self1\<lparr>stats := (stats self1)\<lparr>cache_hits := cache_hits (stats self1) + 1\<rparr>\<rparr>))) \<and>
         (\<forall>t. terminal_value state root_player = Some t \<longrightarrow>
            LLMPositionEvaluator_evaluate pf self state root_player = (Inr t, self))"
proof (intro conjI impI allI)
  fix t assume "terminal_value state root_player = Some t"
  then show "LLMPositionEvaluator_evaluate pf self state root_player = (Inr t, self)"
    by (rule evaluate_terminal)
next
  assume nt: "terminal_value state root_player = None"
  have "\<exists>v self1. LLMPositionEvaluator_evaluate pf self state root_player = (Inr v, self1) \<and>
          same_identity self1 self \<and> cache self1 (cache_key self state root_player) = Some v"
  proof (cases "cache self (cache_key self state root_player)")
    case (Some v)
    from evaluate_hit[OF nt Some, of pf] Some show ?thesis
      by (auto simp: same_identity_def)
  next
    case None
    from evaluate_miss[OF assms nt None, of pf] show ?thesis by auto
  qed
  then obtain v self1 where
    f: "LLMPositionEvaluator_evaluate pf self state root_player = (Inr v, self1)"
       "same_identity self1 self" "cache self1 (cache_key self state root_player) = Some v"
    by blast
  from f(3) cache_key_same[OF f(2), of state root_player]
  have "cache self1 (cache_key self1 state root_player) = Some v" by simp
  from evaluate_hit[OF nt this, of pf'] f(1,2)
  show "\<exists>v self1.
          LLMPositionEvaluator_evaluate pf self state root_player = (Inr v, self1) \<and>
          provider self1 = provider self \<and> model self1 = model self \<and>
          LLMPositionEvaluator_evaluate pf' self1 state root_player =
            (Inr v, self1\<lparr>stats := (stats self1)\<lparr>cache_hits := cache_hits (stats self1) + 1\<rparr>\<rparr>)"
    by (auto simp: same_identity_def)
qed

theorem evaluate_twice_spec_witness:
  "valid_state initial_state \<and> terminal_value initial_state PLAYER_X = None \<and>
   (\<exists>v self1.
      LLMPositionEvaluator_evaluate example_platform default_evaluator initial_state PLAYER_X =
        (Inr v, self1) \<and>
      LLMPositionEvaluator_evaluate example_platform self1 initial_state PLAYER_X =
        (Inr v, self1\<lparr>stats := (stats self1)\<lparr>cache_hits := cache_hits (stats self1) + 1\<rparr>\<rparr>))"
  using evaluate_twice_spec[OF valid_initial, of PLAYER_X example_platform default_evaluator
      example_platform] valid_initial terminal_value_initial[of PLAYER_X]
  by auto

text \<open>
  Claim C5 as stated fails on a terminal state: on the drawn board the first call returns
  1/2 and leaves the evaluator untouched, and after the second call the cache-hit counter
  is still 0.
\<close>

theorem evaluate_twice_terminal_counterexample:
  "LLMPositionEvaluator_evaluate example_platform default_evaluator drawn_state PLAYER_X =
     (Inr (1 / 2), default_evaluator) \<and>
   cache_hits (stats (snd (LLMPositionEvaluator_evaluate example_platform
     (snd (LLMPositionEvaluator_evaluate example_platform default_evaluator drawn_state PLAYER_X))
     drawn_state PLAYER_X))) = 0"
  by (simp add: evaluate_terminal[OF terminal_value_drawn] default_evaluator_def
        LLMPositionEvaluator_init_def)

text \<open>
  Where \<open>evaluate\<close> does return a value in [0, 1]: the random rollout evaluator on
  every state the constructor accepts, and the LLM evaluator on every such state for
  which the cache has no entry under the key of the call, or an entry in [0, 1]. Every
  value \<open>evaluate\<close> computes is clamped, so every entry it stores is in [0, 1].
\<close>

lemma evaluate_in_range:
  assumes "valid_state state"
    and "\<And>w. cache llm (cache_key llm state root_player) = Some w \<Longrightarrow> 0 \<le> w \<and> w \<le> 1"
  shows "(\<exists>v llm'. LLMPositionEvaluator_evaluate pf llm state root_player = (Inr v, llm') \<and>
            0 \<le> v \<and> v \<le> 1) \<and>
         (\<exists>v rr'. RandomRolloutEvaluator_evaluate rr state root_player = (Inr v, rr') \<and>
            0 \<le> v \<and> v \<le> 1)"
proof -
  from evaluate_total[where pf = pf, OF assms]
  have a: "\<exists>v llm'. LLMPositionEvaluator_evaluate pf llm state root_player = (Inr v, llm') \<and>
            0 \<le> v \<and> v \<le> 1" by blast
  from RandomRolloutEvaluator_total[OF assms(1), of rr root_player]
  have b: "\<exists>v rr'. RandomRolloutEvaluator_evaluate rr state root_player = (Inr v, rr') \<and>
            0 \<le> v \<and> v \<le> 1" by auto
  from a b show ?thesis by blast
qed

text \<open>
  Claim C6: for every state, root player and evaluator state, also with a cache loaded
  from a persisted cache file, \<open>evaluate\<close> returns a float in [0, 1]. The code does not
  meet it. The constructor converts the values of the cache file with \<open>float\<close> and
  checks no range, and a cache hit returns the stored value unclamped, while every value
  \<open>evaluate\<close> computes passes \<open>_clamp\<close>: on an evaluator built on a cache file that maps
  the key of the initial state (provider heuristic, model gpt-4.1-mini, root player X) to
  2, \<open>evaluate(initial_state, "X")\<close> counts a cache hit and returns 2.
\<close>

theorem evaluate_loaded_cache_out_of_range:
  "LLMPositionEvaluator_evaluate example_platform loaded_evaluator initial_state PLAYER_X =
     (Inr 2, loaded_evaluator\<lparr>stats := (stats loaded_evaluator)\<lparr>cache_hits := 1\<rparr>\<rparr>) \<and>
   \<not> (2::real) \<le> 1"
proof -
  have k: "cache_key loaded_evaluator initial_state PLAYER_X =
      ''heuristic|gpt-4.1-mini|X|.........:X''"
    by (simp add: cache_key_def loaded_evaluator_def LLMPositionEvaluator_init_def
          provider_heuristic state_key_initial PLAYER_X_def)
  have c: "cache loaded_evaluator (cache_key loaded_evaluator initial_state PLAYER_X) = Some 2"
    unfolding k by (simp add: loaded_evaluator_def LLMPositionEvaluator_init_def)
  have h: "cache_hits (stats loaded_evaluator) = 0"
    by (simp add: loaded_evaluator_def LLMPositionEvaluator_init_def)
  from evaluate_hit[OF terminal_value_initial c, of example_platform] h show ?thesis by simp
qed

section \<open>MCTS driver (Homework4/solutions/mcts.py)\<close>

text \<open>
  The search tree is a store of nodes: a node is referred to by its index in the store,
  the root is node 0 and a new node is appended. \<open>children\<close> is the dictionary from the
  move to the child, in insertion order. The fields \<open>state\<close>, \<open>parent\<close> and \<open>move\<close>
  of the source are \<open>node_state\<close>, \<open>node_parent\<close> and \<open>node_move\<close>.
\<close>

record Node =
  node_state :: GameState
  node_parent :: "nat option"
  node_move :: "int option"
  children :: "(int \<times> nat) list"
  untried_moves :: "int list"
  visits :: nat
  value_sum :: real

type_synonym tree = "Node list"

definition Node_init :: "GameState \<Rightarrow> nat option \<Rightarrow> int option \<Rightarrow> Node" where
  "Node_init s p m =
     \<lparr>node_state = s, node_parent = p, node_move = m, children = [],
      untried_moves = legal_moves s, visits = 0, value_sum = 0\<rparr>"

definition is_terminal :: "Node \<Rightarrow> bool" where
  "is_terminal n = (terminal_outcome (node_state n) \<noteq> None)"

definition is_fully_expanded :: "Node \<Rightarrow> bool" where
  "is_fully_expanded n = (length (untried_moves n) = 0)"

definition mean_value :: "Node \<Rightarrow> real" where
  "mean_value n = (if visits n = 0 then 0 else value_sum n / real (visits n))"

record DecisionStats =
  decision_move :: int
  decision_visits :: nat
  estimated_value :: real
  elapsed_ms :: real
  ms_per_iteration :: real

text \<open>
  The agent calls \<open>self.evaluator.evaluate\<close>: the evaluator is an object of one of the
  two evaluator classes.
\<close>

datatype evaluator = RandomRollout RandomRolloutEvaluator | LLMPosition LLMPositionEvaluator

definition evaluator_evaluate ::
  "platform \<Rightarrow> evaluator \<Rightarrow> GameState \<Rightarrow> string \<Rightarrow> (error + real) \<times> evaluator" where
  "evaluator_evaluate pf ev s root_player =
     (case ev of
        RandomRollout rr \<Rightarrow>
          (case RandomRolloutEvaluator_evaluate rr s root_player of
             (res, rr') \<Rightarrow> (res, RandomRollout rr'))
      | LLMPosition llm \<Rightarrow>
          (case LLMPositionEvaluator_evaluate pf llm s root_player of
             (res, llm') \<Rightarrow> (res, LLMPosition llm')))"

record MCTSAgent =
  agent_evaluator :: evaluator
  iterations :: int
  exploration :: real
  agent_rng :: rng
  agent_name :: string
  last_decision :: "DecisionStats option"

definition MCTSAgent_init ::
  "platform \<Rightarrow> evaluator \<Rightarrow> int \<Rightarrow> real \<Rightarrow> int option \<Rightarrow> string \<Rightarrow> error + MCTSAgent" where
  "MCTSAgent_init pf ev iters expl seed nm =
     (if iters \<le> 0 then Inl (ValueError ''iterations must be > 0'')
      else Inr \<lparr>agent_evaluator = ev, iterations = iters, exploration = expl,
                agent_rng = Random pf seed, agent_name = nm, last_decision = None\<rparr>)"

text \<open>
  UCB scores are floats that may be infinite: \<open>float("inf")\<close> for an unvisited child,
  \<open>float("-inf")\<close> for the initial best score.
\<close>

datatype score = NegInf | Finite real | PosInf

fun score_gt :: "score \<Rightarrow> score \<Rightarrow> bool" where
  "score_gt NegInf b = False"
| "score_gt (Finite x) NegInf = True"
| "score_gt (Finite x) (Finite y) = (x > y)"
| "score_gt (Finite x) PosInf = False"
| "score_gt PosInf PosInf = False"
| "score_gt PosInf b = True"

definition ucb :: "real \<Rightarrow> real \<Rightarrow> string \<Rightarrow> string \<Rightarrow> Node \<Rightarrow> score" where
  "ucb expl log_parent node_player root_player child =
     (if visits child = 0 then PosInf
      else
        let root_value = value_sum child / real (visits child);
            exploit = (if node_player = root_player then root_value else 1 - root_value);
            explore = expl * sqrt (log_parent / real (visits child))
        in Finite (exploit + explore))"

fun select_loop :: "(nat \<Rightarrow> score) \<Rightarrow> nat list \<Rightarrow> score \<Rightarrow> nat list \<Rightarrow> nat list" where
  "select_loop sc [] best_score best_children = best_children"
| "select_loop sc (child # rest) best_score best_children =
     (if score_gt (sc child) best_score then select_loop sc rest (sc child) [child]
      else if sc child = best_score then select_loop sc rest best_score (best_children @ [child])
      else select_loop sc rest best_score best_children)"

definition select_child :: "real \<Rightarrow> tree \<Rightarrow> nat \<Rightarrow> string \<Rightarrow> rng \<Rightarrow> error + (nat \<times> rng)" where
  "select_child expl t node root_player r =
     (if children (t ! node) = [] then Inl (AssertionError [])
      else
        let log_parent = ln (real (max 1 (visits (t ! node))));
            node_player = player (node_state (t ! node));
            best_children =
              select_loop (\<lambda>child. ucb expl log_parent node_player root_player (t ! child))
                (map snd (children (t ! node))) NegInf []
        in choice r best_children)"

partial_function (option) descend ::
  "real \<Rightarrow> tree \<Rightarrow> string \<Rightarrow> nat \<Rightarrow> rng \<Rightarrow> (error + (nat \<times> rng)) option" where
  "descend expl t root_player node r =
     (if \<not> is_terminal (t ! node) \<and> is_fully_expanded (t ! node) \<and> children (t ! node) \<noteq> []
      then (case select_child expl t node root_player r of
              Inl e \<Rightarrow> Some (Inl e)
            | Inr (node', r') \<Rightarrow> descend expl t root_player node' r')
      else Some (Inr (node, r)))"

definition expand :: "tree \<Rightarrow> nat \<Rightarrow> rng \<Rightarrow> error + (tree \<times> nat \<times> rng)" where
  "expand t node r =
     (if \<not> is_terminal (t ! node) \<and> untried_moves (t ! node) \<noteq> [] then
        (case choice r (untried_moves (t ! node)) of
           Inl e \<Rightarrow> Inl e
         | Inr (mv, r') \<Rightarrow>
             (case apply_move (node_state (t ! node)) mv of
                Inl e \<Rightarrow> Inl e
              | Inr s' \<Rightarrow>
                  let child = length t;
                      n' = (t ! node)\<lparr>untried_moves := remove1 mv (untried_moves (t ! node)),
                                      children := AList.update mv child (children (t ! node))\<rparr>
                  in Inr (t[node := n'] @ [Node_init s' (Some node) (Some mv)], child, r')))
      else Inr (t, node, r))"

partial_function (option) backpropagate :: "tree \<Rightarrow> nat option \<Rightarrow> real \<Rightarrow> tree option" where
  "backpropagate t node v =
     (case node of
        None \<Rightarrow> Some t
      | Some i \<Rightarrow>
          backpropagate
            (t[i := (t ! i)\<lparr>visits := visits (t ! i) + 1, value_sum := value_sum (t ! i) + v\<rparr>])
            (node_parent (t ! i)) v)"

definition mcts_iteration ::
  "platform \<Rightarrow> real \<Rightarrow> GameState \<Rightarrow> tree \<times> rng \<times> evaluator
     \<Rightarrow> (error + tree \<times> rng \<times> evaluator) option" where
  "mcts_iteration pf expl root_state st =
     (case st of (t, r, ev) \<Rightarrow>
        (case descend expl t (player root_state) 0 r of
           None \<Rightarrow> None
         | Some (Inl e) \<Rightarrow> Some (Inl e)
         | Some (Inr (node, r1)) \<Rightarrow>
             (case expand t node r1 of
                Inl e \<Rightarrow> Some (Inl e)
              | Inr (t2, node2, r2) \<Rightarrow>
                  (case evaluator_evaluate pf ev (node_state (t2 ! node2)) (player root_state) of
                     (Inl e, ev') \<Rightarrow> Some (Inl e)
                   | (Inr v, ev') \<Rightarrow>
                       (case backpropagate t2 (Some node2) v of
                          None \<Rightarrow> None
                        | Some t3 \<Rightarrow> Some (Inr (t3, r2, ev')))))))"

fun mcts_iterations ::
  "platform \<Rightarrow> real \<Rightarrow> GameState \<Rightarrow> nat \<Rightarrow> tree \<times> rng \<times> evaluator
     \<Rightarrow> (error + tree \<times> rng \<times> evaluator) option" where
  "mcts_iterations pf expl root_state 0 st = Some (Inr st)"
| "mcts_iterations pf expl root_state (Suc k) st =
     (case mcts_iteration pf expl root_state st of
        None \<Rightarrow> None
      | Some (Inl e) \<Rightarrow> Some (Inl e)
      | Some (Inr st') \<Rightarrow> mcts_iterations pf expl root_state k st')"

definition rank_key :: "Node \<Rightarrow> nat \<times> real" where
  "rank_key c = (visits c, mean_value c)"

definition sorted_reverse :: "('a \<Rightarrow> 'k::linorder) \<Rightarrow> 'a list \<Rightarrow> 'a list" where
  "sorted_reverse f xs = rev (sort_key f (rev xs))"

text \<open>
  \<open>choose_move\<close>: \<open>start\<close> and \<open>finish\<close> are the two readings of
  \<open>time.perf_counter()\<close>. The result is the move and the agent after the call (its
  generator, its evaluator and \<open>last_decision\<close>); None is a search that does not return.
\<close>

definition choose_move ::
  "platform \<Rightarrow> real \<Rightarrow> real \<Rightarrow> MCTSAgent \<Rightarrow> GameState \<Rightarrow> (error + int \<times> MCTSAgent) option" where
  "choose_move pf start finish self root_state =
     (case mcts_iterations pf (exploration self) root_state (nat (iterations self))
             ([Node_init root_state None None], agent_rng self, agent_evaluator self) of
        None \<Rightarrow> None
      | Some (Inl e) \<Rightarrow> Some (Inl e)
      | Some (Inr (t, r, ev)) \<Rightarrow>
          let elapsed = (finish - start) * 1000;
              root = t ! 0
          in if children root = [] then
               (case choice r (legal_moves root_state) of
                  Inl e \<Rightarrow> Some (Inl e)
                | Inr (mv, r') \<Rightarrow>
                    Some (Inr (mv, self\<lparr>agent_evaluator := ev, agent_rng := r',
                       last_decision := Some \<lparr>decision_move = mv, decision_visits = 0,
                          estimated_value = 0.5, elapsed_ms = elapsed,
                          ms_per_iteration = elapsed / real_of_int (iterations self)\<rparr>\<rparr>)))
             else
               let ranked = sorted_reverse rank_key (map (\<lambda>(mv, c). t ! c) (children root));
                   best = hd ranked;
                   decision = \<lparr>decision_move = (case node_move best of Some mv \<Rightarrow> mv | None \<Rightarrow> - 1),
                               decision_visits = visits best, estimated_value = mean_value best,
                               elapsed_ms = elapsed,
                               ms_per_iteration = elapsed / real_of_int (iterations self)\<rparr>
               in (case node_move best of
                     Some mv \<Rightarrow>
                       Some (Inr (mv, self\<lparr>agent_evaluator := ev, agent_rng := r,
                                           last_decision := Some decision\<rparr>))
                   | None \<Rightarrow>
                       (case choice r (legal_moves root_state) of
                          Inl e \<Rightarrow> Some (Inl e)
                        | Inr (mv, r') \<Rightarrow>
                            Some (Inr (mv, self\<lparr>agent_evaluator := ev, agent_rng := r',
                                                last_decision := Some decision\<rparr>)))))"

subsection \<open>A root with a single legal move\<close>

lemma evaluator_evaluate_terminal:
  "terminal_value s p = Some tv \<Longrightarrow> evaluator_evaluate pf ev s p = (Inr tv, ev)"
  by (cases ev)
     (simp_all add: evaluator_evaluate_def RandomRolloutEvaluator_evaluate_def evaluate_terminal)

lemma single_move_child:
  assumes "valid_state s" "legal_moves s = [m]"
  shows "\<exists>s'. apply_move s m = Inr s' \<and> valid_state s' \<and> legal_moves s' = [] \<and>
              terminal_outcome s' \<noteq> None"
proof -
  from assms have "m \<in> set (legal_moves s)" by simp
  from apply_move_legal[OF assms(1) this] obtain s' where
    s': "apply_move s m = Inr s'" "valid_state s'" by blast
  note f = apply_move_Inr[OF s'(1)]
  have "board s' ! i \<noteq> EMPTY" if "i < length (board s')" for i
  proof (cases "i = nat m")
    case True
    with f that have "board s' ! i = player s" by simp
    with assms(1) show ?thesis
      by (auto simp: valid_state_def PLAYER_X_def PLAYER_O_def EMPTY_def)
  next
    case False
    show ?thesis
    proof
      assume "board s' ! i = EMPTY"
      with f False that have "board s ! i = EMPTY" "i < length (board s)" by simp_all
      then have "int i \<in> set (legal_moves s)" unfolding legal_moves_set by blast
      with assms(2) f False show False by simp
    qed
  qed
  then have ne: "EMPTY \<notin> set (board s')" by (auto simp: in_set_conv_nth)
  then have "legal_moves s' = []" by (simp add: legal_moves_Nil)
  moreover from ne have "terminal_outcome s' \<noteq> None"
    by (simp add: terminal_outcome_def split: option.splits)
  ultimately show ?thesis using s' by blast
qed

text \<open>
  The tree after \<open>k\<close> iterations on a root with the single legal move \<open>m\<close>: the root
  and its only child, both visited \<open>k\<close> times.
\<close>

definition single_tree :: "GameState \<Rightarrow> int \<Rightarrow> GameState \<Rightarrow> real \<Rightarrow> nat \<Rightarrow> tree" where
  "single_tree s m s' tv k =
     [\<lparr>node_state = s, node_parent = None, node_move = None, children = [(m, Suc 0)],
       untried_moves = [], visits = k, value_sum = real k * tv\<rparr>,
      \<lparr>node_state = s', node_parent = Some 0, node_move = Some m, children = [],
       untried_moves = [], visits = k, value_sum = real k * tv\<rparr>]"

lemma backpropagate_single:
  "backpropagate
     [\<lparr>node_state = s, node_parent = None, node_move = None, children = cs,
       untried_moves = us, visits = k, value_sum = a\<rparr>,
      \<lparr>node_state = s', node_parent = Some 0, node_move = mv, children = cs',
       untried_moves = us', visits = k', value_sum = a'\<rparr>] (Some (Suc 0)) v =
   Some
     [\<lparr>node_state = s, node_parent = None, node_move = None, children = cs,
       untried_moves = us, visits = k + 1, value_sum = a + v\<rparr>,
      \<lparr>node_state = s', node_parent = Some 0, node_move = mv, children = cs',
       untried_moves = us', visits = k' + 1, value_sum = a' + v\<rparr>]"
  apply (subst backpropagate.simps)
  apply simp
  apply (subst backpropagate.simps)
  apply simp
  apply (subst backpropagate.simps)
  apply simp
  done

lemma first_iteration_single:
  assumes "valid_state s" "terminal_outcome s = None" "legal_moves s = [m]"
    and "apply_move s m = Inr s'" "legal_moves s' = []"
    and "terminal_value s' (player s) = Some tv"
  shows "\<exists>r'. mcts_iteration pf expl s ([Node_init s None None], r, ev) =
            Some (Inr (single_tree s m s' tv 1, r', ev))"
proof -
  obtain k r' where k: "randbelow_raw r (Suc 0) = (k, r')"
    by (cases "randbelow_raw r (Suc 0)") auto
  have d: "descend expl [Node_init s None None] (player s) 0 r = Some (Inr (0, r))"
    by (subst descend.simps) (simp add: Node_init_def is_fully_expanded_def assms(3))
  have c: "choice r [m] = Inr (m, r')"
    using k by (simp add: choice_def)
  have e: "expand [Node_init s None None] 0 r =
      Inr ([\<lparr>node_state = s, node_parent = None, node_move = None, children = [(m, Suc 0)],
             untried_moves = [], visits = 0, value_sum = 0\<rparr>,
            \<lparr>node_state = s', node_parent = Some 0, node_move = Some m, children = [],
             untried_moves = [], visits = 0, value_sum = 0\<rparr>], Suc 0, r')"
    using assms(2-5) c by (simp add: expand_def Node_init_def is_terminal_def Let_def)
  show ?thesis
    unfolding mcts_iteration_def
    by (simp add: d e evaluator_evaluate_terminal[OF assms(6)] backpropagate_single
          single_tree_def)
qed

lemma next_iteration_single:
  assumes "terminal_outcome s = None" "terminal_outcome s' \<noteq> None"
    and "terminal_value s' (player s) = Some tv" "0 < k"
  shows "\<exists>r'. mcts_iteration pf expl s (single_tree s m s' tv k, r, ev) =
            Some (Inr (single_tree s m s' tv (Suc k), r', ev))"
proof -
  obtain j r' where j: "randbelow_raw r (Suc 0) = (j, r')"
    by (cases "randbelow_raw r (Suc 0)") auto
  have sel: "select_child expl (single_tree s m s' tv k) 0 (player s) r = Inr (Suc 0, r')"
    using assms(4) j by (simp add: select_child_def single_tree_def ucb_def Let_def choice_def)
  have d1: "descend expl (single_tree s m s' tv k) (player s) (Suc 0) r' = Some (Inr (Suc 0, r'))"
    by (subst descend.simps) (simp add: single_tree_def is_terminal_def assms(2))
  have d: "descend expl (single_tree s m s' tv k) (player s) 0 r = Some (Inr (Suc 0, r'))"
    apply (subst descend.simps)
    apply (simp add: sel d1)
    apply (simp add: single_tree_def is_terminal_def is_fully_expanded_def assms(1))
    done
  have e: "expand (single_tree s m s' tv k) (Suc 0) r' = Inr (single_tree s m s' tv k, Suc 0, r')"
    by (simp add: expand_def single_tree_def is_terminal_def assms(2))
  have b: "backpropagate (single_tree s m s' tv k) (Some (Suc 0)) tv =
      Some (single_tree s m s' tv (Suc k))"
    unfolding single_tree_def by (simp add: backpropagate_single algebra_simps)
  have st: "node_state (single_tree s m s' tv k ! Suc 0) = s'"
    by (simp add: single_tree_def)
  show ?thesis
    unfolding mcts_iteration_def
    by (simp add: d e st evaluator_evaluate_terminal[OF assms(3)] b)
qed

lemma iterations_single:
  assumes "terminal_outcome s = None" "terminal_outcome s' \<noteq> None"
    and "terminal_value s' (player s) = Some tv"
  shows "0 < k \<Longrightarrow> \<exists>r'. mcts_iterations pf expl s n (single_tree s m s' tv k, r, ev) =
            Some (Inr (single_tree s m s' tv (k + n), r', ev))"
proof (induction n arbitrary: k r)
  case 0
  then show ?case by simp
next
  case (Suc n)
  from next_iteration_single[OF assms Suc.prems, of pf expl m r ev] obtain r1 where
    "mcts_iteration pf expl s (single_tree s m s' tv k, r, ev) =
       Some (Inr (single_tree s m s' tv (Suc k), r1, ev))" by blast
  with Suc.IH[of "Suc k" r1] show ?case by simp
qed

definition one_move_state :: GameState where
  "one_move_state =
     \<lparr>board = [''X'', ''O'', ''X'', ''X'', ''O'', ''O'', ''O'', ''X'', ''.''], player = ''X''\<rparr>"

lemma one_move_state_facts:
  "valid_state one_move_state" "terminal_outcome one_move_state = None"
  "legal_moves one_move_state = [8]"
  by (simp_all add: one_move_state_def valid_state_def PLAYER_X_def terminal_outcome_def
        winner_def WIN_LINES_def EMPTY_def legal_moves_def enumerate_eq_zip upt_rec)

text \<open>
  Claim C8. On a state the constructor accepts that is not terminal and has exactly one
  legal move \<open>m\<close>, for every positive iteration budget, every evaluator (of either
  class, in any state), exploration constant, seed and platform, the agent is constructed
  and \<open>choose_move\<close> returns \<open>m\<close>; the decision it records is for \<open>m\<close> and its visit
  count is the iteration budget.
\<close>

theorem choose_move_single_spec:
  assumes "valid_state root_state" "terminal_outcome root_state = None"
    and "legal_moves root_state = [m]" "0 < iters"
  shows "\<exists>self self' d.
           MCTSAgent_init pf ev iters expl seed nm = Inr self \<and>
           choose_move pf start finish self root_state = Some (Inr (m, self')) \<and>
           last_decision self' = Some d \<and> decision_move d = m \<and>
           decision_visits d = nat iters"
proof -
  define self where
    "self = \<lparr>agent_evaluator = ev, iterations = iters, exploration = expl,
             agent_rng = Random pf seed, agent_name = nm, last_decision = None\<rparr>"
  have init: "MCTSAgent_init pf ev iters expl seed nm = Inr self"
    using assms(4) by (simp add: MCTSAgent_init_def self_def)
  from single_move_child[OF assms(1,3)] obtain s' where
    s': "apply_move root_state m = Inr s'" "valid_state s'" "legal_moves s' = []"
        "terminal_outcome s' \<noteq> None" by blast
  from s'(4) obtain tv where tv: "terminal_value s' (player root_state) = Some tv"
    using terminal_value_None[of s' "player root_state"]
    by (cases "terminal_value s' (player root_state)") auto
  from assms(4) obtain n where n: "nat iters = Suc n"
    by (cases "nat iters") auto
  from first_iteration_single[OF assms(1-3) s'(1,3) tv, of pf expl "Random pf seed" ev]
  obtain r1 where
    i1: "mcts_iteration pf expl root_state ([Node_init root_state None None], Random pf seed, ev) =
           Some (Inr (single_tree root_state m s' tv 1, r1, ev))" by blast
  from iterations_single[OF assms(2) s'(4) tv, of 1 pf expl n m r1 ev] obtain r2 where
    i2: "mcts_iterations pf expl root_state n (single_tree root_state m s' tv 1, r1, ev) =
           Some (Inr (single_tree root_state m s' tv (1 + n), r2, ev))" by auto
  have run: "mcts_iterations pf (exploration self) root_state (nat (iterations self))
             ([Node_init root_state None None], agent_rng self, agent_evaluator self) =
           Some (Inr (single_tree root_state m s' tv (Suc n), r2, ev))"
    using i1 i2 n by (simp add: self_def)
  define d where
    "d = \<lparr>decision_move = m, decision_visits = Suc n,
          estimated_value =
            mean_value (single_tree root_state m s' tv (Suc n) ! Suc 0),
          elapsed_ms = (finish - start) * 1000,
          ms_per_iteration = (finish - start) * 1000 / real_of_int (iterations self)\<rparr>"
  have "choose_move pf start finish self root_state =
      Some (Inr (m, self\<lparr>agent_evaluator := ev, agent_rng := r2, last_decision := Some d\<rparr>))"
    unfolding choose_move_def run
    by (simp add: single_tree_def sorted_reverse_def d_def Let_def)
  with init n show ?thesis by (simp add: d_def)
qed

theorem choose_move_single_spec_witness:
  "valid_state one_move_state \<and> terminal_outcome one_move_state = None \<and>
   legal_moves one_move_state = [8] \<and>
   (\<exists>self self' d.
      MCTSAgent_init example_platform
        (RandomRollout (RandomRolloutEvaluator_init example_platform (Some 1))) 50 (sqrt 2)
        (Some 1) ''mcts'' = Inr self \<and>
      choose_move example_platform 0 1 self one_move_state = Some (Inr (8, self')) \<and>
      last_decision self' = Some d \<and> decision_move d = 8 \<and> decision_visits d = 50)"
proof -
  have "(0::int) < 50" by simp
  from choose_move_single_spec[OF one_move_state_facts this, of example_platform
      "RandomRollout (RandomRolloutEvaluator_init example_platform (Some 1))" "sqrt 2"
      "Some 1" "''mcts''" 0 1]
  show ?thesis using one_move_state_facts by simp
qed

subsection \<open>The search tree invariant\<close>

























section \<open>Determinism under a fixed seed\<close>

text \<open>
  Two runs of the program are two platforms: the generator algorithm
  (\<open>random.Random(seed)\<close> for an integer seed), the hash of a cache key and the answers
  of the scoring service are the same in both; what the operating system seeds an
  unseeded generator with may differ, and so may the readings of the clock.
\<close>

definition same_platform :: "platform \<Rightarrow> platform \<Rightarrow> bool" where
  "same_platform pf1 pf2 =
     (Random_seeded pf1 = Random_seeded pf2 \<and> sha256_seed pf1 = sha256_seed pf2 \<and>
      openai_request pf1 = openai_request pf2)"

text \<open>
  What the agents of two runs share after the same calls: evaluator, budget, exploration
  constant and generator. The recorded decision holds clock readings and may differ.
\<close>

definition same_agent :: "MCTSAgent \<Rightarrow> MCTSAgent \<Rightarrow> bool" where
  "same_agent a b =
     (agent_evaluator a = agent_evaluator b \<and> iterations a = iterations b \<and>
      exploration a = exploration b \<and> agent_rng a = agent_rng b)"

text \<open>
  The values of a sequence of \<open>evaluate\<close> calls on one evaluator, and the moves of a
  sequence of \<open>choose_move\<close> calls on one agent (each call with its clock readings), up
  to the first call that raises or does not return.
\<close>

fun evaluate_all :: "RandomRolloutEvaluator \<Rightarrow> (GameState \<times> string) list \<Rightarrow> (error + real) list" where
  "evaluate_all self [] = []"
| "evaluate_all self ((s, root_player) # rest) =
     (case RandomRolloutEvaluator_evaluate self s root_player of
        (res, self') \<Rightarrow> res # evaluate_all self' rest)"

fun choose_moves ::
  "platform \<Rightarrow> MCTSAgent \<Rightarrow> (GameState \<times> real \<times> real) list \<Rightarrow> (error + int) option list" where
  "choose_moves pf self [] = []"
| "choose_moves pf self ((s, start, finish) # rest) =
     (case choose_move pf start finish self s of
        None \<Rightarrow> [None]
      | Some (Inl e) \<Rightarrow> [Some (Inl e)]
      | Some (Inr (mv, self')) \<Rightarrow> Some (Inr mv) # choose_moves pf self' rest)"

primcorec one_rng :: rng where
  "randbelow_raw one_rng = (\<lambda>n. (1, one_rng))"

definition other_platform :: platform where
  "other_platform = example_platform\<lparr>Random_unseeded := one_rng\<rparr>"

lemma Random_seeded_same:
  "same_platform pf1 pf2 \<Longrightarrow> Random pf1 (Some seed) = Random pf2 (Some seed)"
  by (simp add: same_platform_def Random_def)

lemma guided_rollout_average_same:
  "same_platform pf1 pf2 \<Longrightarrow>
     guided_rollout_average pf1 self s p key = guided_rollout_average pf2 self s p key"
  by (simp add: guided_rollout_average_def same_platform_def Random_def)

lemma heuristic_value_same:
  "same_platform pf1 pf2 \<Longrightarrow> heuristic_value pf1 self s p key = heuristic_value pf2 self s p key"
  by (simp add: heuristic_value_def guided_rollout_average_same)

lemma evaluate_with_openai_same:
  "same_platform pf1 pf2 \<Longrightarrow> evaluate_with_openai pf1 self s p = evaluate_with_openai pf2 self s p"
  by (simp add: evaluate_with_openai_def same_platform_def)

lemma LLMPositionEvaluator_evaluate_same:
  assumes "same_platform pf1 pf2"
  shows "LLMPositionEvaluator_evaluate pf1 self s p = LLMPositionEvaluator_evaluate pf2 self s p"
  unfolding LLMPositionEvaluator_evaluate_def
  by (simp only: heuristic_value_same[OF assms] evaluate_with_openai_same[OF assms])

lemma evaluator_evaluate_same:
  assumes "same_platform pf1 pf2"
  shows "evaluator_evaluate pf1 = evaluator_evaluate pf2"
proof (intro ext)
  fix ev s p
  have eq: "LLMPositionEvaluator_evaluate pf1 = LLMPositionEvaluator_evaluate pf2"
    by (intro ext) (rule LLMPositionEvaluator_evaluate_same[OF assms])
  show "evaluator_evaluate pf1 ev s p = evaluator_evaluate pf2 ev s p"
    unfolding evaluator_evaluate_def eq by (rule refl)
qed

lemma mcts_iteration_same:
  assumes "same_platform pf1 pf2"
  shows "mcts_iteration pf1 = mcts_iteration pf2"
  unfolding mcts_iteration_def evaluator_evaluate_same[OF assms] by (rule refl)

lemma mcts_iterations_same:
  assumes "same_platform pf1 pf2"
  shows "mcts_iterations pf1 expl rs n st = mcts_iterations pf2 expl rs n st"
proof (induction n arbitrary: st)
  case 0
  then show ?case by simp
next
  case (Suc n)
  have eq: "mcts_iterations pf1 expl rs n = mcts_iterations pf2 expl rs n"
    by (intro ext) (rule Suc.IH)
  show ?case
    unfolding mcts_iterations.simps mcts_iteration_same[OF assms] eq by (rule refl)
qed

definition same_outcome ::
  "(error + int \<times> MCTSAgent) option \<Rightarrow> (error + int \<times> MCTSAgent) option \<Rightarrow> bool" where
  "same_outcome x y =
     (case (x, y) of
        (None, None) \<Rightarrow> True
      | (Some (Inl e1), Some (Inl e2)) \<Rightarrow> e1 = e2
      | (Some (Inr (m1, b1)), Some (Inr (m2, b2))) \<Rightarrow> m1 = m2 \<and> same_agent b1 b2
      | _ \<Rightarrow> False)"

lemma choose_move_same:
  assumes pf: "same_platform pf1 pf2" and ag: "same_agent a1 a2"
  shows "same_outcome (choose_move pf1 start1 finish1 a1 s) (choose_move pf2 start2 finish2 a2 s)"
proof -
  define run where
    "run = mcts_iterations pf2 (exploration a2) s (nat (iterations a2))
             ([Node_init s None None], agent_rng a2, agent_evaluator a2)"
  have r1: "mcts_iterations pf1 (exploration a1) s (nat (iterations a1))
             ([Node_init s None None], agent_rng a1, agent_evaluator a1) = run"
    using ag mcts_iterations_same[OF pf] by (simp add: same_agent_def run_def)
  show ?thesis
  proof (cases run)
    case None
    then show ?thesis
      unfolding choose_move_def r1 unfolding run_def[symmetric]
      by (simp add: same_outcome_def Let_def)
  next
    case (Some res)
    show ?thesis
    proof (cases res)
      case (Inl e)
      with Some show ?thesis
        unfolding choose_move_def r1 unfolding run_def[symmetric]
        by (simp add: same_outcome_def Let_def)
    next
      case (Inr st)
      obtain t r ev where st: "st = (t, r, ev)" by (cases st) auto
      show ?thesis
      proof (cases "children (t ! 0) = []")
        case True
        show ?thesis
        proof (cases "choice r (legal_moves s)")
          case (Inl e)
          with Some Inr st True show ?thesis
            unfolding choose_move_def r1 unfolding run_def[symmetric]
            by (simp add: same_outcome_def Let_def)
        next
          case c: (Inr mr)
          obtain mv r' where "mr = (mv, r')" by (cases mr) auto
          with c Some Inr st True ag show ?thesis
            unfolding choose_move_def r1 unfolding run_def[symmetric]
            by (simp add: same_outcome_def same_agent_def Let_def)
        qed
      next
        case False
        define best where
          "best = hd (sorted_reverse rank_key (map (\<lambda>(mv, c). t ! c) (children (t ! 0))))"
        show ?thesis
        proof (cases "node_move best")
          case (Some mv)
          with \<open>run = Some res\<close> Inr st False ag show ?thesis
            unfolding choose_move_def r1 unfolding run_def[symmetric]
            by (simp add: same_outcome_def same_agent_def Let_def best_def[symmetric])
        next
          case None
          show ?thesis
          proof (cases "choice r (legal_moves s)")
            case (Inl e)
            with \<open>run = Some res\<close> Inr st False None show ?thesis
              unfolding choose_move_def r1 unfolding run_def[symmetric]
              by (simp add: same_outcome_def Let_def best_def[symmetric])
          next
            case c: (Inr mr)
            obtain mv r' where "mr = (mv, r')" by (cases mr) auto
            with c \<open>run = Some res\<close> Inr st False None ag show ?thesis
              unfolding choose_move_def r1 unfolding run_def[symmetric]
              by (simp add: same_outcome_def same_agent_def Let_def best_def[symmetric])
          qed
        qed
      qed
    qed
  qed
qed

lemma choose_moves_same:
  assumes pf: "same_platform pf1 pf2"
  shows "same_agent a1 a2 \<Longrightarrow> map fst runs1 = map fst runs2 \<Longrightarrow>
           choose_moves pf1 a1 runs1 = choose_moves pf2 a2 runs2"
proof (induction runs1 arbitrary: runs2 a1 a2)
  case Nil
  then show ?case by simp
next
  case (Cons run1 runs1)
  obtain s start1 finish1 where r1: "run1 = (s, start1, finish1)" by (cases run1) auto
  from Cons.prems(2) r1 obtain start2 finish2 rest2 where
    r2: "runs2 = (s, start2, finish2) # rest2" "map fst runs1 = map fst rest2"
    by (cases runs2) auto
  note o = choose_move_same[OF pf Cons.prems(1), of start1 finish1 s start2 finish2]
  show ?case
  proof (cases "choose_move pf1 start1 finish1 a1 s")
    case None
    with o show ?thesis
      unfolding r1 r2(1)
      by (auto simp: same_outcome_def split: option.splits sum.splits)
  next
    case (Some res1)
    show ?thesis
    proof (cases res1)
      case (Inl e)
      with Some o show ?thesis
        unfolding r1 r2(1)
        by (auto simp: same_outcome_def split: option.splits sum.splits)
    next
      case (Inr mb)
      obtain m b1 where mb: "mb = (m, b1)" by (cases mb) auto
      from o Some Inr mb obtain b2 where
        b2: "choose_move pf2 start2 finish2 a2 s = Some (Inr (m, b2))" "same_agent b1 b2"
        by (auto simp: same_outcome_def split: option.splits sum.splits)
      from Cons.IH[OF b2(2) r2(2)] Some Inr mb b2(1) show ?thesis
        unfolding r1 r2(1) by simp
    qed
  qed
qed

lemma zero_rng_not_one_rng: "zero_rng \<noteq> one_rng"
proof
  assume "zero_rng = one_rng"
  then have "fst (randbelow_raw zero_rng 2) = fst (randbelow_raw one_rng 2)" by simp
  then show False by simp
qed

text \<open>
  Without a seed (\<open>seed=None\<close>) the generator is the one the operating system seeds,
  and the generators of two runs may differ: on the two example platforms they do.
\<close>

lemma unseeded_generators_differ:
  "same_platform example_platform other_platform \<and>
   Random example_platform None \<noteq> Random other_platform None"
  using zero_rng_not_one_rng
  by (simp add: same_platform_def other_platform_def example_platform_def Random_def)

lemma same_platform_example: "same_platform example_platform other_platform"
  by (simp add: same_platform_def other_platform_def)

lemma MCTSAgent_init_same:
  assumes "same_platform pf1 pf2" "0 < iters"
  shows "\<exists>a1 a2. MCTSAgent_init pf1 ev iters expl (Some seed) nm = Inr a1 \<and>
           MCTSAgent_init pf2 ev iters expl (Some seed) nm = Inr a2 \<and> same_agent a1 a2"
  using assms(2) Random_seeded_same[OF assms(1), of seed]
  by (simp add: MCTSAgent_init_def same_agent_def)

text \<open>
  Claim C9. Take two runs (platforms with the same generator algorithm, hash and service
  answers, whatever the operating system's entropy and the clock readings) and an integer
  seed. Two random rollout evaluators constructed with that seed return the same values on
  the same sequence of \<open>evaluate\<close> calls. Two agents constructed with the same seed,
  budget, exploration constant and evaluator (a random rollout evaluator constructed in
  each run with the same seed, or an LLM evaluator in the same state) make the same moves
  on the same sequence of states, raise the same error at the same call, or fail to
  return at the same call.
\<close>

theorem determinism_spec:
  assumes "same_platform pf1 pf2" "map fst runs1 = map fst runs2" "0 < iters"
  shows "evaluate_all (RandomRolloutEvaluator_init pf1 (Some eseed)) inputs =
           evaluate_all (RandomRolloutEvaluator_init pf2 (Some eseed)) inputs \<and>
         (\<exists>a1 a2.
            MCTSAgent_init pf1 (RandomRollout (RandomRolloutEvaluator_init pf1 (Some eseed)))
              iters expl (Some seed) nm = Inr a1 \<and>
            MCTSAgent_init pf2 (RandomRollout (RandomRolloutEvaluator_init pf2 (Some eseed)))
              iters expl (Some seed) nm = Inr a2 \<and>
            choose_moves pf1 a1 runs1 = choose_moves pf2 a2 runs2) \<and>
         (\<exists>a1 a2.
            MCTSAgent_init pf1 (LLMPosition llm) iters expl (Some seed) nm = Inr a1 \<and>
            MCTSAgent_init pf2 (LLMPosition llm) iters expl (Some seed) nm = Inr a2 \<and>
            choose_moves pf1 a1 runs1 = choose_moves pf2 a2 runs2)"
proof -
  have rr: "RandomRolloutEvaluator_init pf1 (Some eseed) = RandomRolloutEvaluator_init pf2 (Some eseed)"
    using Random_seeded_same[OF assms(1), of eseed] by (simp add: RandomRolloutEvaluator_init_def)
  then have a: "evaluate_all (RandomRolloutEvaluator_init pf1 (Some eseed)) inputs =
           evaluate_all (RandomRolloutEvaluator_init pf2 (Some eseed)) inputs" by simp
  have b: "\<exists>a1 a2. MCTSAgent_init pf1 ev iters expl (Some seed) nm = Inr a1 \<and>
           MCTSAgent_init pf2 ev iters expl (Some seed) nm = Inr a2 \<and>
           choose_moves pf1 a1 runs1 = choose_moves pf2 a2 runs2" for ev
  proof -
    from MCTSAgent_init_same[OF assms(1,3), of ev expl seed nm] obtain a1 a2 where
      i: "MCTSAgent_init pf1 ev iters expl (Some seed) nm = Inr a1"
         "MCTSAgent_init pf2 ev iters expl (Some seed) nm = Inr a2" "same_agent a1 a2" by blast
    from choose_moves_same[OF assms(1) i(3) assms(2)] i(1,2) show ?thesis by blast
  qed
  from b[of "RandomRollout (RandomRolloutEvaluator_init pf1 (Some eseed))"] rr
  have c: "\<exists>a1 a2.
            MCTSAgent_init pf1 (RandomRollout (RandomRolloutEvaluator_init pf1 (Some eseed)))
              iters expl (Some seed) nm = Inr a1 \<and>
            MCTSAgent_init pf2 (RandomRollout (RandomRolloutEvaluator_init pf2 (Some eseed)))
              iters expl (Some seed) nm = Inr a2 \<and>
            choose_moves pf1 a1 runs1 = choose_moves pf2 a2 runs2" by simp
  from a c b[of "LLMPosition llm"] show ?thesis by blast
qed

theorem determinism_spec_witness:
  "same_platform example_platform other_platform \<and>
   map fst [(one_move_state, (0::real, 1::real)), (initial_state, (1, 2))] =
     map fst [(one_move_state, (5::real, 9::real)), (initial_state, (9, 12))] \<and>
   (0::int) < 50 \<and>
   evaluate_all (RandomRolloutEvaluator_init example_platform (Some 1))
       [(initial_state, PLAYER_X), (one_move_state, PLAYER_O)] =
     evaluate_all (RandomRolloutEvaluator_init other_platform (Some 1))
       [(initial_state, PLAYER_X), (one_move_state, PLAYER_O)] \<and>
   (\<exists>a1 a2.
      MCTSAgent_init example_platform (LLMPosition default_evaluator) 50 (sqrt 2) (Some 2)
        ''mcts'' = Inr a1 \<and>
      MCTSAgent_init other_platform (LLMPosition default_evaluator) 50 (sqrt 2) (Some 2)
        ''mcts'' = Inr a2 \<and>
      choose_moves example_platform a1 [(one_move_state, (0, 1)), (initial_state, (1, 2))] =
        choose_moves other_platform a2 [(one_move_state, (5, 9)), (initial_state, (9, 12))])"
proof -
  have m: "map fst [(one_move_state, (0::real, 1::real)), (initial_state, (1, 2))] =
     map fst [(one_move_state, (5::real, 9::real)), (initial_state, (9, 12))]" by simp
  have p: "(0::int) < 50" by simp
  from determinism_spec[OF same_platform_example m p, of 1
      "[(initial_state, PLAYER_X), (one_move_state, PLAYER_O)]" "sqrt 2" 2 "''mcts''"
      default_evaluator]
  have "evaluate_all (RandomRolloutEvaluator_init example_platform (Some 1))
       [(initial_state, PLAYER_X), (one_move_state, PLAYER_O)] =
     evaluate_all (RandomRolloutEvaluator_init other_platform (Some 1))
       [(initial_state, PLAYER_X), (one_move_state, PLAYER_O)]"
    and "\<exists>a1 a2.
      MCTSAgent_init example_platform (LLMPosition default_evaluator) 50 (sqrt 2) (Some 2)
        ''mcts'' = Inr a1 \<and>
      MCTSAgent_init other_platform (LLMPosition default_evaluator) 50 (sqrt 2) (Some 2)
        ''mcts'' = Inr a2 \<and>
      choose_moves example_platform a1 [(one_move_state, (0, 1)), (initial_state, (1, 2))] =
        choose_moves other_platform a2 [(one_move_state, (5, 9)), (initial_state, (9, 12))]"
    by blast+
  with same_platform_example m p show ?thesis by blast
qed

end
